theory Spec2Isabelle
  imports Complex_Main
begin

section \<open>Floats, exceptions and library functions\<close>

text \<open>
  The notebooks compute with Python and numpy floats (IEEE 754 doubles). A float is
  modelled as a finite real number, an infinity or \<open>nan\<close>. Every operation is read as
  the exact real operation followed by \<open>fl\<close>, which keeps a result that lies inside the
  range of the finite floats, sends a result at or beyond the overflow threshold to an
  infinity and a result at or below half the smallest subnormal number to zero. So
  overflow, underflow to zero, infinities, \<open>nan\<close> and every exception of the source are
  modelled; the rounding of a result to 53 significant bits inside the range is not, and
  neither is the sign of a zero. The parameters of the functions are finite floats, given
  as real numbers.
\<close>

datatype pyerr = ZeroDivisionError | ValueError | OverflowError

datatype pyfloat = Fin real | PosInf | NegInf | NaN

definition float_max_bound :: real where
  "float_max_bound = 2 ^ 1024 - 2 ^ 970"

definition float_min_bound :: real where
  "float_min_bound = 1 / 2 ^ 1075"

definition fl :: "real \<Rightarrow> pyfloat" where
  "fl x = (if float_max_bound \<le> x then PosInf
           else if x \<le> - float_max_bound then NegInf
           else if \<bar>x\<bar> \<le> float_min_bound then Fin 0
           else Fin x)"

text \<open>An infinity times or divided by a finite number: its sign, or \<open>nan\<close> at zero.\<close>

definition signed_inf :: "real \<Rightarrow> pyfloat" where
  "signed_inf x = (if x = 0 then NaN else if 0 < x then PosInf else NegInf)"

text \<open>
  Addition, subtraction, multiplication and negation of floats, in Python and in numpy
  alike: they never raise.
\<close>

fun f_neg :: "pyfloat \<Rightarrow> pyfloat" where
  "f_neg (Fin x) = Fin (- x)"
| "f_neg PosInf = NegInf"
| "f_neg NegInf = PosInf"
| "f_neg NaN = NaN"

fun f_add :: "pyfloat \<Rightarrow> pyfloat \<Rightarrow> pyfloat" where
  "f_add (Fin x) (Fin y) = fl (x + y)"
| "f_add NaN b = NaN"
| "f_add a NaN = NaN"
| "f_add PosInf NegInf = NaN"
| "f_add NegInf PosInf = NaN"
| "f_add PosInf b = PosInf"
| "f_add a PosInf = PosInf"
| "f_add NegInf b = NegInf"
| "f_add a NegInf = NegInf"

definition f_sub :: "pyfloat \<Rightarrow> pyfloat \<Rightarrow> pyfloat" where
  "f_sub a b = f_add a (f_neg b)"

fun f_mul :: "pyfloat \<Rightarrow> pyfloat \<Rightarrow> pyfloat" where
  "f_mul (Fin x) (Fin y) = fl (x * y)"
| "f_mul NaN b = NaN"
| "f_mul a NaN = NaN"
| "f_mul (Fin x) PosInf = signed_inf x"
| "f_mul (Fin x) NegInf = signed_inf (- x)"
| "f_mul PosInf (Fin y) = signed_inf y"
| "f_mul NegInf (Fin y) = signed_inf (- y)"
| "f_mul PosInf PosInf = PosInf"
| "f_mul PosInf NegInf = NegInf"
| "f_mul NegInf PosInf = NegInf"
| "f_mul NegInf NegInf = PosInf"

text \<open>Division by a float that is not zero.\<close>

fun f_div :: "pyfloat \<Rightarrow> pyfloat \<Rightarrow> pyfloat" where
  "f_div (Fin x) (Fin y) = fl (x / y)"
| "f_div NaN b = NaN"
| "f_div a NaN = NaN"
| "f_div (Fin x) PosInf = Fin 0"
| "f_div (Fin x) NegInf = Fin 0"
| "f_div PosInf (Fin y) = signed_inf y"
| "f_div NegInf (Fin y) = signed_inf (- y)"
| "f_div a b = NaN"

text \<open>
  Python: \<open>a / b\<close> raises \<open>ZeroDivisionError\<close> when \<open>b\<close> is zero; \<open>x ** n\<close> raises
  \<open>OverflowError\<close> when the power of a finite number is out of range; \<open>math.log\<close> and
  \<open>math.sqrt\<close> raise \<open>ValueError\<close> outside their domain (the logarithm and the square
  root of a float never leave the range of the floats); \<open>math.exp\<close> raises
  \<open>OverflowError\<close> when the exponential of a finite number is out of range; \<open>float\<close> of
  a float is the float.
\<close>

definition py_truediv :: "pyfloat \<Rightarrow> pyfloat \<Rightarrow> pyerr + pyfloat" where
  "py_truediv a b = (if b = Fin 0 then Inl ZeroDivisionError else Inr (f_div a b))"

fun py_pow :: "pyfloat \<Rightarrow> nat \<Rightarrow> pyerr + pyfloat" where
  "py_pow (Fin x) n =
     (if float_max_bound \<le> \<bar>x ^ n\<bar> then Inl OverflowError else Inr (fl (x ^ n)))"
| "py_pow PosInf n = Inr (if n = 0 then Fin 1 else PosInf)"
| "py_pow NegInf n = Inr (if n = 0 then Fin 1 else if even n then PosInf else NegInf)"
| "py_pow NaN n = Inr (if n = 0 then Fin 1 else NaN)"

fun math_log :: "pyfloat \<Rightarrow> pyerr + pyfloat" where
  "math_log (Fin x) = (if x \<le> 0 then Inl ValueError else Inr (Fin (ln x)))"
| "math_log PosInf = Inr PosInf"
| "math_log NegInf = Inl ValueError"
| "math_log NaN = Inr NaN"

fun math_sqrt :: "pyfloat \<Rightarrow> pyerr + pyfloat" where
  "math_sqrt (Fin x) = (if x < 0 then Inl ValueError else Inr (Fin (sqrt x)))"
| "math_sqrt PosInf = Inr PosInf"
| "math_sqrt NegInf = Inl ValueError"
| "math_sqrt NaN = Inr NaN"

fun math_exp :: "pyfloat \<Rightarrow> pyerr + pyfloat" where
  "math_exp (Fin x) =
     (if float_max_bound \<le> exp x then Inl OverflowError else Inr (fl (exp x)))"
| "math_exp PosInf = Inr PosInf"
| "math_exp NegInf = Inr (Fin 0)"
| "math_exp NaN = Inr NaN"

definition py_float :: "real \<Rightarrow> pyfloat" where
  "py_float x = Fin x"

text \<open>
  \<open>scipy.stats.norm\<close>. The density of the standard normal distribution is
  \<open>exp (- x\<^sup>2 / 2) / sqrt (2 * pi)\<close>. Its distribution function is the integral of the
  density from minus infinity. The integral of \<open>exp (- t\<^sup>2 / 2)\<close> from \<open>0\<close> to \<open>x\<close> is
  given by its power series (\<open>gauss_int\<close>), the integral over the positive half line is
  the supremum of these values (\<open>gauss_half_mass\<close>), and the integral from minus infinity
  to \<open>x\<close> is their sum. The lemmas \<open>std_norm_cdf_deriv\<close>, \<open>std_norm_cdf_at_bot\<close> and
  \<open>std_norm_cdf_unique\<close> below show that \<open>std_norm_cdf\<close> is the one antiderivative of the
  density that vanishes at minus infinity.
\<close>

definition gauss_coeff :: "nat \<Rightarrow> real" where
  "gauss_coeff n =
     (if even n then 0
      else (- 1 / 2) ^ ((n - 1) div 2) / (fact ((n - 1) div 2) * real n))"

definition gauss_int :: "real \<Rightarrow> real" where
  "gauss_int x = (\<Sum>n. gauss_coeff n * x ^ n)"

definition gauss_half_mass :: real where
  "gauss_half_mass = (SUP x. gauss_int x)"

definition std_norm_pdf :: "real \<Rightarrow> real" where
  "std_norm_pdf x = exp (- x\<^sup>2 / 2) / sqrt (2 * pi)"

definition std_norm_cdf :: "real \<Rightarrow> real" where
  "std_norm_cdf x = (gauss_half_mass + gauss_int x) / sqrt (2 * pi)"


fun norm_cdf :: "pyfloat \<Rightarrow> real \<Rightarrow> real \<Rightarrow> pyfloat" where
  "norm_cdf (Fin x) loc scale = fl (std_norm_cdf ((x - loc) / scale))"
| "norm_cdf PosInf loc scale = Fin 1"
| "norm_cdf NegInf loc scale = Fin 0"
| "norm_cdf NaN loc scale = NaN"

text \<open>
  numpy does not raise on floats: \<open>np.sqrt\<close> of a negative number is \<open>nan\<close>, \<open>np.exp\<close>
  overflows to infinity, \<open>np.maximum\<close> hands \<open>nan\<close> on, a division by zero gives an
  infinity or \<open>nan\<close>, each with a warning at most. \<open>np.sum\<close> adds the entries of the
  array, pairwise in numpy and from left to right here: on the terms of the cell, none of
  which is negative, the order matters to the rounding only. An array is a list of any
  length: memory is not modelled.
\<close>

fun np_sqrt :: "pyfloat \<Rightarrow> pyfloat" where
  "np_sqrt (Fin x) = (if x < 0 then NaN else Fin (sqrt x))"
| "np_sqrt PosInf = PosInf"
| "np_sqrt NegInf = NaN"
| "np_sqrt NaN = NaN"

fun np_exp :: "pyfloat \<Rightarrow> pyfloat" where
  "np_exp (Fin x) = fl (exp x)"
| "np_exp PosInf = PosInf"
| "np_exp NegInf = Fin 0"
| "np_exp NaN = NaN"

fun np_maximum :: "pyfloat \<Rightarrow> real \<Rightarrow> pyfloat" where
  "np_maximum (Fin x) c = Fin (max x c)"
| "np_maximum PosInf c = PosInf"
| "np_maximum NegInf c = Fin c"
| "np_maximum NaN c = NaN"

definition np_sum :: "pyfloat list \<Rightarrow> pyfloat" where
  "np_sum xs = foldl f_add (Fin 0) xs"

fun np_true_divide :: "pyfloat \<Rightarrow> int \<Rightarrow> pyfloat" where
  "np_true_divide (Fin x) n = (if n = 0 then signed_inf x else fl (x / real_of_int n))"
| "np_true_divide PosInf n = (if n < 0 then NegInf else PosInf)"
| "np_true_divide NegInf n = (if n < 0 then PosInf else NegInf)"
| "np_true_divide NaN n = NaN"

text \<open>
  The global random generator of numpy. Its state is represented by the sequence of
  standard normal variates it is going to produce: \<open>np.random.standard_normal(n)\<close>
  returns the next \<open>n\<close> of them and advances the state. A negative size is refused with
  a \<open>ValueError\<close>.
\<close>

type_synonym rng = "nat \<Rightarrow> real"

definition standard_normal :: "int \<Rightarrow> rng \<Rightarrow> (pyerr + real list) \<times> rng" where
  "standard_normal n g =
     (if n < 0 then (Inl ValueError, g)
      else (Inr (map g [0..<nat n]), (\<lambda>k. g (k + nat n))))"

section \<open>Option\_Valuation.ipynb\<close>

text \<open>
  \<open>BSM_call_value(S_0, K, T, r, vola)\<close>, statement by statement and in Python's order
  of evaluation:
  \<^verbatim>\<open>S_0 = float(S_0)\<close>
  \<^verbatim>\<open>d1 = (math.log(S_0 / K) + (r + 0.5 * vola ** 2) * T) / (vola * math.sqrt(T))\<close>
  \<^verbatim>\<open>d2 = d1 - vola * math.sqrt(T)\<close>
  \<^verbatim>\<open>call_value = (S_0 * stats.norm.cdf(d1, 0.0, 1.0)\<close>
  \<^verbatim>\<open>              - K * math.exp(-r * T) * stats.norm.cdf(d2, 0.0, 1.0))\<close>
\<close>

definition BSM_call_value :: "real \<Rightarrow> real \<Rightarrow> real \<Rightarrow> real \<Rightarrow> real \<Rightarrow> pyerr + pyfloat" where
  "BSM_call_value S_0 K T r vola =
     (let S_0 = py_float S_0 in
      case py_truediv S_0 (Fin K) of Inl e \<Rightarrow> Inl e | Inr q \<Rightarrow>
      case math_log q of Inl e \<Rightarrow> Inl e | Inr l \<Rightarrow>
      case py_pow (Fin vola) 2 of Inl e \<Rightarrow> Inl e | Inr v2 \<Rightarrow>
      case math_sqrt (Fin T) of Inl e \<Rightarrow> Inl e | Inr s \<Rightarrow>
      case py_truediv (f_add l (f_mul (f_add (Fin r) (f_mul (Fin 0.5) v2)) (Fin T)))
             (f_mul (Fin vola) s) of Inl e \<Rightarrow> Inl e | Inr d1 \<Rightarrow>
      case math_sqrt (Fin T) of Inl e \<Rightarrow> Inl e | Inr s' \<Rightarrow>
      let d2 = f_sub d1 (f_mul (Fin vola) s') in
      case math_exp (f_mul (f_neg (Fin r)) (Fin T)) of Inl e \<Rightarrow> Inl e | Inr ex \<Rightarrow>
      Inr (f_sub (f_mul S_0 (norm_cdf d1 0 1))
                 (f_mul (f_mul (Fin K) ex) (norm_cdf d2 0 1))))"

text \<open>
  The Monte Carlo cell, given the array \<open>rand\<close>:
  \<^verbatim>\<open>ST = S_0 * np.exp((r - 0.5 * vola ** 2) * T + np.sqrt(T) * vola * rand)\<close>
  \<^verbatim>\<open>pv = np.sum(np.maximum(ST - K, 0) * np.exp(-r * T)) / I\<close>
  The only operation that can raise is the Python power \<open>vola ** 2\<close>.
\<close>

definition MCS_pv ::
  "real \<Rightarrow> real \<Rightarrow> real \<Rightarrow> real \<Rightarrow> real \<Rightarrow> int \<Rightarrow> real list \<Rightarrow> pyerr + pyfloat" where
  "MCS_pv S_0 K T r vola I rand =
     (case py_pow (Fin vola) 2 of Inl e \<Rightarrow> Inl e | Inr v2 \<Rightarrow>
      let a = f_mul (f_sub (Fin r) (f_mul (Fin 0.5) v2)) (Fin T);
          b = f_mul (np_sqrt (Fin T)) (Fin vola);
          ST = map (\<lambda>z. f_mul (Fin S_0) (np_exp (f_add a (f_mul b (Fin z))))) rand;
          disc = np_exp (f_mul (f_neg (Fin r)) (Fin T))
      in Inr (np_true_divide
                (np_sum (map (\<lambda>st. f_mul (np_maximum (f_sub st (Fin K)) 0) disc) ST)) I))"

text \<open>
  The whole cell. Its first statement is \<open>I = 100000\<close>; the number of paths is taken
  as an input here, in place of that constant. Then
  \<open>rand = np.random.standard_normal(I)\<close> reads the global generator, and \<open>ST\<close> and \<open>pv\<close>
  are computed. The result is the value of \<open>pv\<close> (or the exception) and the new state
  of the generator. The cell takes no seed, and the notebook never seeds the generator.
\<close>

definition MCS_cell ::
  "real \<Rightarrow> real \<Rightarrow> real \<Rightarrow> real \<Rightarrow> real \<Rightarrow> int \<Rightarrow> rng \<Rightarrow> (pyerr + pyfloat) \<times> rng" where
  "MCS_cell S_0 K T r vola I g =
     (case standard_normal I g of
        (Inl e, g') \<Rightarrow> (Inl e, g')
      | (Inr rand, g') \<Rightarrow> (MCS_pv S_0 K T r vola I rand, g'))"

section \<open>Financial\_Derivative\_Option\_Class.ipynb\<close>

text \<open>The attributes of an instance of class \<open>Option\<close>, as \<open>__init__\<close> sets them.\<close>

record Option_obj =
  self_S0 :: pyfloat
  self_K :: real
  self_T :: real
  self_r :: real
  self_vola :: real

definition Option_init :: "real \<Rightarrow> real \<Rightarrow> real \<Rightarrow> real \<Rightarrow> real \<Rightarrow> Option_obj" where
  "Option_init S0 K T r vola =
     \<lparr>self_S0 = py_float S0, self_K = K, self_T = T, self_r = r, self_vola = vola\<rparr>"

text \<open>
  \<^verbatim>\<open>d1 = ((math.log(self.S0 / self.K) + (self.r + 0.5 * self.vola ** 2) * self.T)\<close>
  \<^verbatim>\<open>      / (self.vola * math.sqrt(self.T)))\<close>
\<close>

definition Option_d1 :: "Option_obj \<Rightarrow> pyerr + pyfloat" where
  "Option_d1 self =
     (case py_truediv (self_S0 self) (Fin (self_K self)) of Inl e \<Rightarrow> Inl e | Inr q \<Rightarrow>
      case math_log q of Inl e \<Rightarrow> Inl e | Inr l \<Rightarrow>
      case py_pow (Fin (self_vola self)) 2 of Inl e \<Rightarrow> Inl e | Inr v2 \<Rightarrow>
      case math_sqrt (Fin (self_T self)) of Inl e \<Rightarrow> Inl e | Inr s \<Rightarrow>
      py_truediv
        (f_add l (f_mul (f_add (Fin (self_r self)) (f_mul (Fin 0.5) v2)) (Fin (self_T self))))
        (f_mul (Fin (self_vola self)) s))"

text \<open>
  \<^verbatim>\<open>d1 = self.d1()\<close>
  \<^verbatim>\<open>d2 = d1 - self.vola * math.sqrt(self.T)\<close>
  \<^verbatim>\<open>call_value = (self.S0 * scs.norm.cdf(d1, 0.0, 1.0)\<close>
  \<^verbatim>\<open>              - self.K * math.exp(-self.r * self.T) * scs.norm.cdf(d2, 0.0, 1.0))\<close>
\<close>

definition Call_Option :: "Option_obj \<Rightarrow> pyerr + pyfloat" where
  "Call_Option self =
     (case Option_d1 self of Inl e \<Rightarrow> Inl e | Inr d1 \<Rightarrow>
      case math_sqrt (Fin (self_T self)) of Inl e \<Rightarrow> Inl e | Inr s \<Rightarrow>
      let d2 = f_sub d1 (f_mul (Fin (self_vola self)) s) in
      case math_exp (f_mul (f_neg (Fin (self_r self))) (Fin (self_T self))) of
        Inl e \<Rightarrow> Inl e
      | Inr ex \<Rightarrow>
          Inr (f_sub (f_mul (self_S0 self) (norm_cdf d1 0 1))
                     (f_mul (f_mul (Fin (self_K self)) ex) (norm_cdf d2 0 1))))"

text \<open>
  Class \<open>OptionVega(Option)\<close> adds the method \<open>vega\<close> and inherits the constructor,
  \<open>d1\<close> and \<open>Call_Option\<close>: its instances have the same attributes.
  \<^verbatim>\<open>d1 = self.d1()\<close>
  \<^verbatim>\<open>vega = self.S0 * scs.norm.pdf(d1, 0.0, 1.0) * math.sqrt(self.T)\<close>
\<close>

type_synonym OptionVega_obj = Option_obj

definition OptionVega_init :: "real \<Rightarrow> real \<Rightarrow> real \<Rightarrow> real \<Rightarrow> real \<Rightarrow> OptionVega_obj" where
  "OptionVega_init S0 K T r vola = Option_init S0 K T r vola"


section \<open>The formulas over the real numbers\<close>

text \<open>
  The closed form of the price as a function of real numbers, which the code evaluates in
  floating point, and the conditions under which no operation of the code leaves the
  range of the floats: \<open>in_float_range x\<close> says that the result \<open>x\<close> of an operation is
  kept as it is.
\<close>

definition d_plus :: "real \<Rightarrow> real \<Rightarrow> real \<Rightarrow> real \<Rightarrow> real \<Rightarrow> real" where
  "d_plus S K T r v = (ln (S / K) + (r + 0.5 * v\<^sup>2) * T) / (v * sqrt T)"

definition closed_form :: "real \<Rightarrow> real \<Rightarrow> real \<Rightarrow> real \<Rightarrow> real \<Rightarrow> real" where
  "closed_form S K T r v =
     S * std_norm_cdf (d_plus S K T r v)
     - K * exp (- r * T) * std_norm_cdf (d_plus S K T r v - v * sqrt T)"

definition in_float_range :: "real \<Rightarrow> bool" where
  "in_float_range x \<longleftrightarrow> fl x = Fin x"

definition d1_in_range :: "real \<Rightarrow> real \<Rightarrow> real \<Rightarrow> real \<Rightarrow> real \<Rightarrow> bool" where
  "d1_in_range S K T r v \<longleftrightarrow>
     in_float_range (S / K) \<and> in_float_range (v\<^sup>2) \<and> in_float_range (0.5 * v\<^sup>2)
     \<and> in_float_range (r + 0.5 * v\<^sup>2) \<and> in_float_range ((r + 0.5 * v\<^sup>2) * T)
     \<and> in_float_range (ln (S / K) + (r + 0.5 * v\<^sup>2) * T)
     \<and> in_float_range (v * sqrt T) \<and> in_float_range (d_plus S K T r v)"

definition BSM_in_range :: "real \<Rightarrow> real \<Rightarrow> real \<Rightarrow> real \<Rightarrow> real \<Rightarrow> bool" where
  "BSM_in_range S K T r v \<longleftrightarrow>
     d1_in_range S K T r v
     \<and> in_float_range (d_plus S K T r v - v * sqrt T)
     \<and> in_float_range (std_norm_cdf (d_plus S K T r v))
     \<and> in_float_range (S * std_norm_cdf (d_plus S K T r v))
     \<and> in_float_range (- r * T) \<and> in_float_range (exp (- r * T))
     \<and> in_float_range (K * exp (- r * T))
     \<and> in_float_range (std_norm_cdf (d_plus S K T r v - v * sqrt T))
     \<and> in_float_range (K * exp (- r * T) * std_norm_cdf (d_plus S K T r v - v * sqrt T))
     \<and> in_float_range (closed_form S K T r v)"


text \<open>
  The same for the Monte Carlo cell: the terminal price and the discounted payoff of a
  draw as real numbers, and the condition that no operation on the way to \<open>pv\<close> leaves
  the range of the floats.
\<close>

definition terminal_price :: "real \<Rightarrow> real \<Rightarrow> real \<Rightarrow> real \<Rightarrow> real \<Rightarrow> real" where
  "terminal_price S T r v z = S * exp ((r - 0.5 * v\<^sup>2) * T + sqrt T * v * z)"

definition discounted_payoff :: "real \<Rightarrow> real \<Rightarrow> real \<Rightarrow> real \<Rightarrow> real \<Rightarrow> real \<Rightarrow> real" where
  "discounted_payoff S K T r v z = max (terminal_price S T r v z - K) 0 * exp (- r * T)"

definition MCS_in_range :: "real \<Rightarrow> real \<Rightarrow> real \<Rightarrow> real \<Rightarrow> real \<Rightarrow> int \<Rightarrow> real list \<Rightarrow> bool" where
  "MCS_in_range S K T r v I zs \<longleftrightarrow>
     in_float_range (v\<^sup>2) \<and> in_float_range (0.5 * v\<^sup>2) \<and> in_float_range (r - 0.5 * v\<^sup>2)
     \<and> in_float_range ((r - 0.5 * v\<^sup>2) * T) \<and> in_float_range (sqrt T * v)
     \<and> in_float_range (- r * T) \<and> in_float_range (exp (- r * T))
     \<and> (\<forall>z\<in>set zs.
           in_float_range (sqrt T * v * z)
           \<and> in_float_range ((r - 0.5 * v\<^sup>2) * T + sqrt T * v * z)
           \<and> in_float_range (exp ((r - 0.5 * v\<^sup>2) * T + sqrt T * v * z))
           \<and> in_float_range (terminal_price S T r v z)
           \<and> in_float_range (terminal_price S T r v z - K)
           \<and> in_float_range (discounted_payoff S K T r v z))
     \<and> sum_list (map (discounted_payoff S K T r v) zs) < float_max_bound
     \<and> in_float_range (sum_list (map (discounted_payoff S K T r v) zs) / real_of_int I)"

text \<open>A float that is not negative: a finite number \<open>\<ge> 0\<close>, plus infinity or \<open>nan\<close>.\<close>

fun not_negative :: "pyfloat \<Rightarrow> bool" where
  "not_negative (Fin x) = (0 \<le> x)"
| "not_negative PosInf = True"
| "not_negative NegInf = False"
| "not_negative NaN = True"

text \<open>The exception that a call raises, if it raises one.\<close>

definition raised :: "pyerr + 'a \<Rightarrow> pyerr option" where
  "raised x = (case x of Inl e \<Rightarrow> Some e | Inr v \<Rightarrow> None)"

text \<open>
  A parameter of moderate size: zero, or of absolute value between \<open>1e-100\<close> and
  \<open>1e100\<close>. With such parameters no quotient, square or product of the closed form comes
  near either end of the range of the floats.
\<close>

definition moderate :: "real \<Rightarrow> bool" where
  "moderate x \<longleftrightarrow> x = 0 \<or> (1 / 10 ^ 100 \<le> \<bar>x\<bar> \<and> \<bar>x\<bar> \<le> 10 ^ 100)"

section \<open>Polynomials for numerical bounds\<close>

text \<open>
  Partial sums of the series of \<open>gauss_int\<close>, of \<open>arctan\<close> and of \<open>ln (1 + x)\<close>. They
  bound these functions from below and from above, and are evaluated on rational numbers;
  \<open>gauss_horner\<close> is the nested form in which \<open>gauss_poly\<close> is evaluated.
\<close>

definition gauss_poly :: "nat \<Rightarrow> real \<Rightarrow> real" where
  "gauss_poly N x = (\<Sum>k<N. (- 1 / 2) ^ k * x ^ (2 * k + 1) / (fact k * real (2 * k + 1)))"

fun gauss_horner :: "nat \<Rightarrow> nat \<Rightarrow> real \<Rightarrow> real" where
  "gauss_horner 0 k y = 0"
| "gauss_horner (Suc n) k y = 1 / real (2 * k + 1) + y / real (k + 1) * gauss_horner n (Suc k) y"

definition arctan_poly :: "nat \<Rightarrow> real \<Rightarrow> real" where
  "arctan_poly n x = (\<Sum>k<n. (- 1) ^ k * x ^ (2 * k + 1) / real (2 * k + 1))"

definition ln_poly :: "nat \<Rightarrow> real \<Rightarrow> real" where
  "ln_poly n x = (\<Sum>k<n. (- 1) ^ k * x ^ (k + 1) / real (k + 1))"

section \<open>The standard normal distribution\<close>

text \<open>
  The power series \<open>gauss_int\<close> converges everywhere, its derivative is
  \<open>exp (- x\<^sup>2 / 2)\<close>, it is odd, increasing and bounded. Hence \<open>std_norm_cdf\<close> is an
  antiderivative of the density \<open>std_norm_pdf\<close>, positive, increasing, with limit \<open>0\<close> at
  minus infinity.
\<close>

lemma gauss_coeff_summable: "summable (\<lambda>n. gauss_coeff n * x ^ n)"
proof (rule summable_comparison_test)
  let ?g = "\<lambda>k. \<bar>x\<bar> * ((x\<^sup>2 / 2) ^ k / fact k)"
  let ?h = "\<lambda>n. if even n then 0 else ?g ((n - 1) div 2)"
  have "summable (\<lambda>k. (x\<^sup>2 / 2) ^ k / fact k)"
    using summable_exp [of "x\<^sup>2 / 2"] by (simp add: field_simps)
  then have "summable ?g"
    by (rule summable_mult)
  then have "?g sums suminf ?g"
    by (rule summable_sums)
  then have "?h sums suminf ?g"
    by (rule sums_if')
  then show "summable ?h"
    by (rule sums_summable)
  show "\<exists>N. \<forall>n\<ge>N. norm (gauss_coeff n * x ^ n) \<le> ?h n"
  proof (intro exI allI impI)
    fix n :: nat
    show "norm (gauss_coeff n * x ^ n) \<le> ?h n"
    proof (cases "even n")
      case True
      then show ?thesis by (simp add: gauss_coeff_def)
    next
      case False
      then obtain k where n: "n = 2 * k + 1"
        by (auto elim: oddE)
      have "\<bar>x\<bar> ^ (2 * k) = (x\<^sup>2) ^ k"
        by (simp add: power_mult)
      then have "norm (gauss_coeff n * x ^ n) = \<bar>x\<bar> * ((x\<^sup>2 / 2) ^ k / fact k) / real n"
        by (simp add: n gauss_coeff_def abs_mult power_abs power_divide)
      also have "\<dots> \<le> \<bar>x\<bar> * ((x\<^sup>2 / 2) ^ k / fact k) / 1"
        by (intro divide_left_mono) (simp_all add: n)
      finally show ?thesis
        by (simp add: n)
    qed
  qed
qed

lemma diffs_gauss_coeff:
  "diffs gauss_coeff n = (if even n then (- 1 / 2) ^ (n div 2) / fact (n div 2) else 0)"
  by (simp add: diffs_def gauss_coeff_def)

lemma gauss_density_series:
  "(\<lambda>n. diffs gauss_coeff n * x ^ n) sums exp (- x\<^sup>2 / 2)"
proof -
  let ?f = "\<lambda>k. (- x\<^sup>2 / 2) ^ k / fact k"
  have "?f sums exp (- x\<^sup>2 / 2)"
    using exp_converges [of "- x\<^sup>2 / 2"] by (simp add: field_simps)
  moreover have "(\<lambda>k::nat. 0::real) sums 0"
    by simp
  ultimately have "(\<lambda>n. if even n then ?f (n div 2) else 0) sums (0 + exp (- x\<^sup>2 / 2))"
    by (rule sums_if [rotated])
  moreover have "(if even n then ?f (n div 2) else 0) = diffs gauss_coeff n * x ^ n" for n
  proof (cases "even n")
    case True
    then obtain k where n: "n = 2 * k" by (auto elim: evenE)
    have "(- x\<^sup>2 / 2) ^ k = ((- 1 / 2) * x\<^sup>2) ^ k"
      by simp
    also have "\<dots> = (- 1 / 2) ^ k * x ^ (2 * k)"
      by (simp only: power_mult_distrib power_mult)
    finally show ?thesis
      by (simp add: diffs_gauss_coeff n)
  next
    case False
    then show ?thesis by (simp add: diffs_gauss_coeff)
  qed
  ultimately show ?thesis by simp
qed

lemma gauss_int_deriv: "(gauss_int has_real_derivative exp (- x\<^sup>2 / 2)) (at x)"
proof -
  have "((\<lambda>x. \<Sum>n. gauss_coeff n * x ^ n) has_real_derivative
          (\<Sum>n. diffs gauss_coeff n * x ^ n)) (at x)"
    by (rule termdiffs_strong [of _ "\<bar>x\<bar> + 1"]) (simp_all add: gauss_coeff_summable)
  then show ?thesis
    using gauss_density_series [of x]
    by (simp add: sums_unique [symmetric] gauss_int_def [abs_def])
qed

lemma gauss_int_0: "gauss_int 0 = 0"
proof -
  have "gauss_coeff n * 0 ^ n = 0" for n
    by (cases n) (simp_all add: gauss_coeff_def)
  then show ?thesis
    unfolding gauss_int_def by (simp only: suminf_zero)
qed

lemma gauss_int_minus: "gauss_int (- x) = - gauss_int x"
proof -
  have "gauss_coeff n * (- x) ^ n = - (gauss_coeff n * x ^ n)" for n
    by (cases "even n") (simp_all add: gauss_coeff_def)
  then show ?thesis
    by (simp add: gauss_int_def suminf_minus gauss_coeff_summable)
qed

lemma gauss_int_strict_mono: "x < y \<Longrightarrow> gauss_int x < gauss_int y"
  by (rule DERIV_pos_imp_increasing [of x y gauss_int])
     (auto intro!: exI gauss_int_deriv)

lemma gauss_int_mono: "x \<le> y \<Longrightarrow> gauss_int x \<le> gauss_int y"
  using gauss_int_strict_mono [of x y] by (cases "x = y") auto

lemma gauss_int_le_arctan:
  assumes "0 \<le> x"
  shows "gauss_int x \<le> 2 * arctan x"
proof -
  let ?h = "\<lambda>t. 2 * arctan t - gauss_int t"
  have "?h 0 \<le> ?h x"
  proof (rule DERIV_nonneg_imp_nondecreasing [OF assms])
    fix t :: real
    have "(?h has_real_derivative (2 * inverse (1 + t\<^sup>2) - exp (- t\<^sup>2 / 2))) (at t)"
      by (auto intro!: derivative_eq_intros gauss_int_deriv)
    moreover have "exp (- t\<^sup>2 / 2) \<le> 2 * inverse (1 + t\<^sup>2)"
    proof -
      have "1 + t\<^sup>2 / 2 \<le> exp (t\<^sup>2 / 2)"
        by (rule exp_ge_add_one_self)
      then have "inverse (exp (t\<^sup>2 / 2)) \<le> inverse (1 + t\<^sup>2 / 2)"
        by (intro le_imp_inverse_le) (auto intro: add_pos_nonneg)
      also have "\<dots> = 2 * inverse (2 + t\<^sup>2)"
        by (simp add: field_simps)
      also have "\<dots> \<le> 2 * inverse (1 + t\<^sup>2)"
        by (intro mult_left_mono le_imp_inverse_le) (auto intro: add_pos_nonneg)
      finally show ?thesis
        by (simp add: exp_minus)
    qed
    ultimately show "\<exists>y. (?h has_real_derivative y) (at t) \<and> 0 \<le> y"
      by (intro exI [of _ "2 * inverse (1 + t\<^sup>2) - exp (- t\<^sup>2 / 2)"]) simp
  qed
  then show ?thesis
    by (simp add: gauss_int_0)
qed

lemma gauss_int_less_pi: "gauss_int x < pi"
proof (cases "0 \<le> x")
  case True
  then have "gauss_int x \<le> 2 * arctan x"
    by (rule gauss_int_le_arctan)
  also have "\<dots> < pi"
    using arctan_ubound [of x] by simp
  finally show ?thesis .
next
  case False
  then have "gauss_int x \<le> gauss_int 0"
    by (intro gauss_int_mono) simp
  then show ?thesis
    using pi_gt_zero unfolding gauss_int_0 by linarith
qed

lemma gauss_int_bdd_above: "bdd_above (range gauss_int)"
  by (rule bdd_aboveI [of _ pi]) (auto intro: less_imp_le gauss_int_less_pi)

lemma gauss_int_le_half_mass: "gauss_int x \<le> gauss_half_mass"
  unfolding gauss_half_mass_def
  by (rule cSUP_upper) (simp_all add: gauss_int_bdd_above)

lemma gauss_int_less_half_mass: "gauss_int x < gauss_half_mass"
  using gauss_int_strict_mono [of x "x + 1"] gauss_int_le_half_mass [of "x + 1"] by simp

lemma gauss_half_mass_approached:
  assumes "0 < e"
  shows "\<exists>x. gauss_half_mass - e < gauss_int x"
proof -
  have "gauss_half_mass - e < (SUP x. gauss_int x)"
    using assms by (simp add: gauss_half_mass_def)
  then show ?thesis
    by (simp add: less_cSUP_iff gauss_int_bdd_above)
qed

lemma sqrt_2pi_pos: "0 < sqrt (2 * pi)"
  by simp

lemma std_norm_cdf_deriv:
  "(std_norm_cdf has_real_derivative std_norm_pdf x) (at x)"
proof -
  have "((\<lambda>x. gauss_half_mass + gauss_int x) has_real_derivative exp (- x\<^sup>2 / 2)) (at x)"
    by (auto intro!: derivative_eq_intros gauss_int_deriv)
  then show ?thesis
    unfolding std_norm_cdf_def [abs_def] std_norm_pdf_def by (rule DERIV_cdivide)
qed

lemma std_norm_cdf_pos: "0 < std_norm_cdf x"
proof -
  have "- gauss_int x < gauss_half_mass"
    using gauss_int_less_half_mass [of "- x"] by (simp add: gauss_int_minus)
  then show ?thesis
    by (simp add: std_norm_cdf_def)
qed

lemma std_norm_cdf_mono: "x \<le> y \<Longrightarrow> std_norm_cdf x \<le> std_norm_cdf y"
  by (simp add: std_norm_cdf_def divide_right_mono gauss_int_mono)

lemma std_norm_cdf_small:
  assumes "0 < e"
  shows "\<exists>y. \<forall>x\<le>y. std_norm_cdf x < e"
proof -
  have "0 < e * sqrt (2 * pi)"
    using assms by simp
  then obtain z where z: "gauss_half_mass - e * sqrt (2 * pi) < gauss_int z"
    using gauss_half_mass_approached by blast
  have "std_norm_cdf x < e" if "x \<le> - z" for x
  proof -
    have "gauss_int x \<le> gauss_int (- z)"
      using that by (rule gauss_int_mono)
    then have "gauss_half_mass + gauss_int x < e * sqrt (2 * pi)"
      using z by (simp add: gauss_int_minus)
    then show ?thesis
      by (simp add: std_norm_cdf_def pos_divide_less_eq)
  qed
  then show ?thesis by blast
qed

lemma std_norm_cdf_at_bot: "(std_norm_cdf \<longlongrightarrow> 0) at_bot"
proof (rule tendstoI)
  fix e :: real
  assume "0 < e"
  then obtain y where "\<forall>x\<le>y. std_norm_cdf x < e"
    using std_norm_cdf_small by blast
  then have "\<forall>x\<le>y. dist (std_norm_cdf x) 0 < e"
    by (simp add: dist_real_def abs_of_pos [OF std_norm_cdf_pos])
  then show "eventually (\<lambda>x. dist (std_norm_cdf x) 0 < e) at_bot"
    unfolding eventually_at_bot_linorder by blast
qed

text \<open>These two properties determine the distribution function.\<close>

lemma std_norm_cdf_unique:
  assumes deriv: "\<And>x. (F has_real_derivative std_norm_pdf x) (at x)"
    and lim: "(F \<longlongrightarrow> 0) at_bot"
  shows "F x = std_norm_cdf x"
proof -
  define c where "c = F x - std_norm_cdf x"
  have "((\<lambda>t. F t - std_norm_cdf t) has_real_derivative 0) (at t)" for t
    using DERIV_diff [OF deriv [of t] std_norm_cdf_deriv [of t]] by simp
  then have const: "F t - std_norm_cdf t = c" for t
    unfolding c_def using DERIV_isconst_all [of "\<lambda>t. F t - std_norm_cdf t" t x] by blast
  have "((\<lambda>t. F t - std_norm_cdf t) \<longlongrightarrow> 0 - 0) at_bot"
    by (intro tendsto_diff lim std_norm_cdf_at_bot)
  then have "((\<lambda>t::real. c) \<longlongrightarrow> 0) at_bot"
    by (simp add: const)
  then have "c = 0"
    using tendsto_unique [OF trivial_limit_at_bot_linorder tendsto_const] by blast
  then show ?thesis
    by (simp add: c_def)
qed

section \<open>The formula of the price as a function of the spot\<close>

text \<open>
  This section is about \<open>closed_form\<close>, the formula over the real numbers. Its
  derivative with respect to the spot is \<open>\<Phi> d1\<close>: the two terms with the density cancel
  (\<open>pdf_balance\<close>). So the formula increases with the spot, and since it is at least
  \<open>- strike * exp (- rate * maturity) * \<Phi> d2\<close>, which tends to \<open>0\<close> when the spot tends
  to \<open>0\<close>, it is never negative. Neither fact carries over to the floats that the code
  returns, which are rounded: next to a tie the rounding decides their order and their
  sign.
\<close>

lemma std_norm_cdf_deriv_chain:
  assumes "(f has_real_derivative D) (at x)"
  shows "((\<lambda>x. std_norm_cdf (f x)) has_real_derivative std_norm_pdf (f x) * D) (at x)"
  using DERIV_chain2 [OF std_norm_cdf_deriv assms] .

lemma d_plus_deriv:
  assumes "0 < S" "0 < K" "0 < T" "0 < v"
  shows "((\<lambda>S. d_plus S K T r v) has_real_derivative 1 / (S * (v * sqrt T))) (at S)"
proof -
  have "((\<lambda>S. ln (S / K)) has_real_derivative 1 / S) (at S)"
    using assms by (auto intro!: derivative_eq_intros simp: field_simps)
  then have "((\<lambda>S. ln (S / K) + (r + 0.5 * v\<^sup>2) * T) has_real_derivative 1 / S + 0) (at S)"
    by (intro DERIV_add DERIV_const)
  then have "((\<lambda>S. (ln (S / K) + (r + 0.5 * v\<^sup>2) * T) / (v * sqrt T)) has_real_derivative
      (1 / S + 0) / (v * sqrt T)) (at S)"
    by (rule DERIV_cdivide)
  then show ?thesis
    by (simp add: d_plus_def [abs_def])
qed

lemma pdf_balance:
  assumes "0 < S" "0 < K" "0 < T" "0 < v"
  shows "K * exp (- r * T) * std_norm_pdf (d_plus S K T r v - v * sqrt T)
         = S * std_norm_pdf (d_plus S K T r v)"
proof -
  define b where "b = v * sqrt T"
  define d where "d = d_plus S K T r v"
  have b: "0 < b" and bb: "b\<^sup>2 = v\<^sup>2 * T"
    using assms by (simp_all add: b_def power_mult_distrib)
  have "d = (ln (S / K) + (r + 0.5 * v\<^sup>2) * T) / b"
    by (simp add: d_def d_plus_def b_def)
  then have "d * b = ln (S / K) + (r + 0.5 * v\<^sup>2) * T"
    using b by simp
  then have "2 * d * b = 2 * ln (S / K) + 2 * (r * T) + v\<^sup>2 * T"
    by (simp add: algebra_simps)
  moreover have "(d - b)\<^sup>2 = d\<^sup>2 - 2 * d * b + v\<^sup>2 * T"
    by (simp add: power2_diff bb)
  ultimately have "- (d - b)\<^sup>2 / 2 = - d\<^sup>2 / 2 + ln (S / K) + r * T"
    by linarith
  then have "exp (- (d - b)\<^sup>2 / 2) = exp (- d\<^sup>2 / 2 + ln (S / K) + r * T)"
    by (simp only:)
  also have "\<dots> = exp (- d\<^sup>2 / 2) * exp (ln (S / K)) * exp (r * T)"
    by (simp only: exp_add)
  also have "exp (ln (S / K)) = S / K"
    using assms by (intro exp_ln) simp
  finally have "exp (- (d - b)\<^sup>2 / 2) = exp (- d\<^sup>2 / 2) * (S / K) * exp (r * T)" .
  then have "K * exp (- r * T) * exp (- (d - b)\<^sup>2 / 2) = S * exp (- d\<^sup>2 / 2)"
    using assms by (simp add: exp_minus field_simps)
  then show ?thesis
    unfolding std_norm_pdf_def b_def [symmetric] d_def [symmetric]
    by (simp add: field_simps)
qed

lemma closed_form_deriv:
  assumes "0 < S" "0 < K" "0 < T" "0 < v"
  shows "((\<lambda>S. closed_form S K T r v) has_real_derivative std_norm_cdf (d_plus S K T r v)) (at S)"
proof -
  let ?d = "\<lambda>S. d_plus S K T r v"
  let ?D = "1 / (S * (v * sqrt T))"
  note dd = d_plus_deriv [OF assms, of r]
  have "((\<lambda>S. S * std_norm_cdf (?d S) - K * exp (- r * T) * std_norm_cdf (?d S - v * sqrt T))
          has_real_derivative
          (1 * std_norm_cdf (?d S) + (std_norm_pdf (?d S) * ?D) * S)
          - K * exp (- r * T) * (std_norm_pdf (?d S - v * sqrt T) * (?D - 0))) (at S)"
    by (intro DERIV_diff DERIV_mult DERIV_cmult std_norm_cdf_deriv_chain dd DERIV_ident
        DERIV_const)
  moreover have "(1 * std_norm_cdf (?d S) + (std_norm_pdf (?d S) * ?D) * S)
          - K * exp (- r * T) * (std_norm_pdf (?d S - v * sqrt T) * (?D - 0))
        = std_norm_cdf (?d S)"
    using pdf_balance [OF assms, of r] by (simp add: algebra_simps)
  ultimately show ?thesis
    by (simp add: closed_form_def [abs_def])
qed

lemma closed_form_mono_spot:
  assumes "0 < s1" "s1 \<le> s2" "0 < K" "0 < T" "0 < v"
  shows "closed_form s1 K T r v \<le> closed_form s2 K T r v"
proof (rule DERIV_nonneg_imp_nondecreasing [OF assms(2)])
  fix x
  assume "s1 \<le> x"
  then have "0 < x"
    using assms(1) by simp
  then show "\<exists>y. ((\<lambda>S. closed_form S K T r v) has_real_derivative y) (at x) \<and> 0 \<le> y"
    using closed_form_deriv [of x K T v r] assms std_norm_cdf_pos [of "d_plus x K T r v"]
    by (intro exI [of _ "std_norm_cdf (d_plus x K T r v)"]) (simp add: less_imp_le)
qed

lemma closed_form_lower:
  assumes "0 < S" "0 < K" "0 < T" "0 < v" "0 < e"
  shows "- (K * exp (- r * T)) * e \<le> closed_form S K T r v"
proof -
  define b where "b = v * sqrt T"
  define a where "a = (r + 0.5 * v\<^sup>2) * T"
  have b: "0 < b"
    using assms by (simp add: b_def)
  obtain y where y: "\<forall>x\<le>y. std_norm_cdf x < e"
    using std_norm_cdf_small [OF \<open>0 < e\<close>] by blast
  define s where "s = min S (K * exp (b * (y + b) - a))"
  have s: "0 < s" "s \<le> S" "s \<le> K * exp (b * (y + b) - a)"
    using assms by (simp_all add: s_def)
  have "ln (s / K) \<le> ln (exp (b * (y + b) - a))"
    using s assms by (subst ln_le_cancel_iff) (simp_all add: field_simps)
  then have "ln (s / K) + a \<le> b * (y + b)"
    by simp
  then have "(ln (s / K) + a) / b \<le> y + b"
    using b by (simp add: field_simps)
  then have "d_plus s K T r v - v * sqrt T \<le> y"
    by (simp add: d_plus_def a_def b_def)
  then have "std_norm_cdf (d_plus s K T r v - v * sqrt T) < e"
    using y by blast
  then have "K * exp (- r * T) * std_norm_cdf (d_plus s K T r v - v * sqrt T)
      \<le> K * exp (- r * T) * e"
    using assms by (intro mult_left_mono) simp_all
  moreover have "0 \<le> s * std_norm_cdf (d_plus s K T r v)"
    using s std_norm_cdf_pos [of "d_plus s K T r v"] by simp
  ultimately have "- (K * exp (- r * T)) * e \<le> closed_form s K T r v"
    by (simp add: closed_form_def)
  also have "\<dots> \<le> closed_form S K T r v"
    using s assms by (intro closed_form_mono_spot) simp_all
  finally show ?thesis .
qed

lemma closed_form_nonneg:
  assumes "0 < S" "0 < K" "0 < T" "0 < v"
  shows "0 \<le> closed_form S K T r v"
proof (rule ccontr)
  assume "\<not> 0 \<le> closed_form S K T r v"
  then have neg: "closed_form S K T r v < 0"
    by simp
  define D where "D = K * exp (- r * T)"
  have D: "0 < D"
    using assms by (simp add: D_def)
  define e where "e = - closed_form S K T r v / (2 * D)"
  have e: "0 < e"
    unfolding e_def using neg D by (intro divide_pos_pos) simp_all
  have "- D * e \<le> closed_form S K T r v"
    unfolding D_def using assms e by (intro closed_form_lower) simp_all
  moreover have "- D * e = closed_form S K T r v / 2"
    using D by (simp add: e_def)
  ultimately show False
    using neg by simp
qed

section \<open>Bounds on the distribution function and on the half mass\<close>

text \<open>
  For \<open>x \<ge> 0\<close> the partial sums of \<open>gauss_int\<close> with an even number of terms are lower
  bounds and those with an odd number of terms are upper bounds. Beyond \<open>a > 0\<close> the
  integral grows by at most \<open>exp (- a\<^sup>2 / 2) / a\<close>, which bounds \<open>gauss_half_mass\<close>:
  it lies between \<open>1.253313418\<close> and \<open>1.253314419\<close>, around \<open>sqrt (pi / 2)\<close>. Its
  exact value is not needed.
\<close>

lemma exp_partial_sum_even:
  assumes "u \<le> 0" "even n"
  shows "(\<Sum>m<n. u ^ m / fact m) \<le> exp (u::real)"
proof -
  obtain t where "exp u = (\<Sum>m<n. u ^ m / fact m) + exp t / fact n * u ^ n"
    using Maclaurin_exp_le [of u n] by blast
  moreover have "0 \<le> exp t / fact n * u ^ n"
    using assms by (intro mult_nonneg_nonneg zero_le_even_power) simp_all
  ultimately show ?thesis by simp
qed

lemma exp_partial_sum_nonneg:
  assumes "0 \<le> u"
  shows "(\<Sum>m<n. u ^ m / fact m) \<le> exp (u::real)"
proof -
  obtain t where "exp u = (\<Sum>m<n. u ^ m / fact m) + exp t / fact n * u ^ n"
    using Maclaurin_exp_le [of u n] by blast
  moreover have "0 \<le> exp t / fact n * u ^ n"
    using assms by (intro mult_nonneg_nonneg zero_le_power) simp_all
  ultimately show ?thesis by simp
qed

lemma exp_partial_sum_odd:
  assumes "u \<le> 0" "odd n"
  shows "exp (u::real) \<le> (\<Sum>m<n. u ^ m / fact m)"
proof -
  obtain t where "exp u = (\<Sum>m<n. u ^ m / fact m) + exp t / fact n * u ^ n"
    using Maclaurin_exp_le [of u n] by blast
  moreover have "u ^ n \<le> 0"
    using assms by (simp add: power_le_zero_eq odd_pos)
  then have "exp t / fact n * u ^ n \<le> 0"
    by (intro mult_nonneg_nonpos) simp_all
  ultimately show ?thesis by simp
qed

lemma gauss_poly_deriv:
  "(gauss_poly N has_real_derivative (\<Sum>k<N. (- x\<^sup>2 / 2) ^ k / fact k)) (at x)"
proof -
  have "((\<lambda>x. (- 1 / 2) ^ k * x ^ (2 * k + 1) / (fact k * real (2 * k + 1)))
          has_real_derivative (- x\<^sup>2 / 2) ^ k / fact k) (at x)" for k
  proof -
    define c where "c = real (2 * k + 1)"
    have c: "c \<noteq> 0"
      by (simp add: c_def)
    have pw: "(- x\<^sup>2 / 2) ^ k = (- 1 / 2) ^ k * x ^ (2 * k)"
      using power_mult_distrib [of "- 1 / 2" "x\<^sup>2" k] by (simp add: power_mult)
    have "((\<lambda>x. x ^ (2 * k + 1)) has_real_derivative c * x ^ (2 * k)) (at x)"
      using DERIV_pow [of "2 * k + 1" x] by (simp add: c_def)
    then have "((\<lambda>x. (- 1 / 2) ^ k * x ^ (2 * k + 1)) has_real_derivative
        (- 1 / 2) ^ k * (c * x ^ (2 * k))) (at x)"
      by (rule DERIV_cmult)
    then have "((\<lambda>x. (- 1 / 2) ^ k * x ^ (2 * k + 1) / (fact k * c)) has_real_derivative
        (- 1 / 2) ^ k * (c * x ^ (2 * k)) / (fact k * c)) (at x)"
      by (rule DERIV_cdivide)
    moreover have "(- 1 / 2) ^ k * (c * x ^ (2 * k)) / (fact k * c) = (- x\<^sup>2 / 2) ^ k / fact k"
      using c pw by simp
    ultimately show ?thesis
      by (simp add: c_def)
  qed
  then show ?thesis
    unfolding gauss_poly_def [abs_def] by (intro DERIV_sum)
qed

lemma gauss_poly_0: "gauss_poly N 0 = 0"
  by (simp add: gauss_poly_def)

lemma gauss_int_ge_poly:
  assumes "0 \<le> x" "even N"
  shows "gauss_poly N x \<le> gauss_int x"
proof -
  let ?h = "\<lambda>t. gauss_int t - gauss_poly N t"
  have "?h 0 \<le> ?h x"
  proof (rule DERIV_nonneg_imp_nondecreasing [OF assms(1)])
    fix t :: real
    have "(?h has_real_derivative (exp (- t\<^sup>2 / 2) - (\<Sum>k<N. (- t\<^sup>2 / 2) ^ k / fact k))) (at t)"
      by (intro DERIV_diff gauss_int_deriv gauss_poly_deriv)
    moreover have "(\<Sum>k<N. (- t\<^sup>2 / 2) ^ k / fact k) \<le> exp (- t\<^sup>2 / 2)"
      using assms(2) by (intro exp_partial_sum_even) simp_all
    ultimately show "\<exists>y. (?h has_real_derivative y) (at t) \<and> 0 \<le> y"
      by (intro exI [of _ "exp (- t\<^sup>2 / 2) - (\<Sum>k<N. (- t\<^sup>2 / 2) ^ k / fact k)"]) simp
  qed
  then show ?thesis
    by (simp add: gauss_int_0 gauss_poly_0)
qed

lemma gauss_int_le_poly:
  assumes "0 \<le> x" "odd N"
  shows "gauss_int x \<le> gauss_poly N x"
proof -
  let ?h = "\<lambda>t. gauss_poly N t - gauss_int t"
  have "?h 0 \<le> ?h x"
  proof (rule DERIV_nonneg_imp_nondecreasing [OF assms(1)])
    fix t :: real
    have "(?h has_real_derivative ((\<Sum>k<N. (- t\<^sup>2 / 2) ^ k / fact k) - exp (- t\<^sup>2 / 2))) (at t)"
      by (intro DERIV_diff gauss_int_deriv gauss_poly_deriv)
    moreover have "exp (- t\<^sup>2 / 2) \<le> (\<Sum>k<N. (- t\<^sup>2 / 2) ^ k / fact k)"
      using assms(2) by (intro exp_partial_sum_odd) simp_all
    ultimately show "\<exists>y. (?h has_real_derivative y) (at t) \<and> 0 \<le> y"
      by (intro exI [of _ "(\<Sum>k<N. (- t\<^sup>2 / 2) ^ k / fact k) - exp (- t\<^sup>2 / 2)"]) simp
  qed
  then show ?thesis
    by (simp add: gauss_int_0 gauss_poly_0)
qed

lemma gauss_horner_sum:
  "gauss_horner n k y = (\<Sum>j<n. fact k / fact (k + j) * y ^ j / real (2 * (k + j) + 1))"
proof (induction n arbitrary: k)
  case 0
  show ?case by simp
next
  case (Suc n)
  have aux: "y / a * (a * f / g * p / c) = f / g * (y * p) / c" if "a \<noteq> 0" for a f g p c :: real
    using that by simp
  have "y / real (k + 1) * (fact (Suc k) / fact (Suc k + j) * y ^ j / real (2 * (Suc k + j) + 1))
      = fact k / fact (k + Suc j) * y ^ Suc j / real (2 * (k + Suc j) + 1)" for j
    using aux [of "real (k + 1)" "fact k" "fact (k + Suc j)" "y ^ j" "real (2 * (k + Suc j) + 1)"]
    by simp
  then have D: "y / real (k + 1) * (\<Sum>j<n. fact (Suc k) / fact (Suc k + j) * y ^ j / real (2 * (Suc k + j) + 1))
      = (\<Sum>j<n. fact k / fact (k + Suc j) * y ^ Suc j / real (2 * (k + Suc j) + 1))"
    by (simp only: sum_distrib_left)
  have A: "gauss_horner (Suc n) k y = 1 / real (2 * k + 1)
      + y / real (k + 1) * (\<Sum>j<n. fact (Suc k) / fact (Suc k + j) * y ^ j / real (2 * (Suc k + j) + 1))"
    by (simp only: gauss_horner.simps Suc.IH)
  have B: "(\<Sum>j<Suc n. fact k / fact (k + j) * y ^ j / real (2 * (k + j) + 1))
      = fact k / fact (k + 0) * y ^ 0 / real (2 * (k + 0) + 1)
        + (\<Sum>j<n. fact k / fact (k + Suc j) * y ^ Suc j / real (2 * (k + Suc j) + 1))"
    by (rule sum.lessThan_Suc_shift)
  have C: "fact k / fact (k + 0) * y ^ 0 / real (2 * (k + 0) + 1) = 1 / real (2 * k + 1)"
    by simp
  show ?case
    by (simp only: A B C D)
qed

lemma gauss_poly_horner: "gauss_poly N x = x * gauss_horner N 0 (- x\<^sup>2 / 2)"
proof -
  have pw: "(- 1 / 2) ^ k * x ^ (2 * k + 1) = x * (- x\<^sup>2 / 2) ^ k" for k
    using power_mult_distrib [of "- 1 / 2" "x\<^sup>2" k] by (simp add: power_mult)
  have "(- 1 / 2) ^ k * x ^ (2 * k + 1) / (fact k * real (2 * k + 1))
      = x * (fact 0 / fact (0 + k) * (- x\<^sup>2 / 2) ^ k / real (2 * (0 + k) + 1))" for k
    unfolding pw by simp
  then show ?thesis
    unfolding gauss_poly_def gauss_horner_sum by (simp only: sum_distrib_left)
qed

lemma gauss_tail:
  assumes "0 < a" "a \<le> x"
  shows "gauss_int x \<le> gauss_int a + exp (- a\<^sup>2 / 2) / a"
proof -
  let ?h = "\<lambda>t. - (gauss_int t + exp (- t\<^sup>2 / 2) / t)"
  have "?h a \<le> ?h x"
  proof (rule DERIV_nonneg_imp_nondecreasing [OF assms(2)])
    fix t :: real
    assume "a \<le> t"
    then have t: "0 < t"
      using assms(1) by simp
    have "(?h has_real_derivative
          - (exp (- t\<^sup>2 / 2) + (exp (- t\<^sup>2 / 2) * (- t) * t - exp (- t\<^sup>2 / 2) * 1) / (t * t))) (at t)"
      using t by (auto intro!: derivative_eq_intros gauss_int_deriv)
    moreover have "- (exp (- t\<^sup>2 / 2) + (exp (- t\<^sup>2 / 2) * (- t) * t - exp (- t\<^sup>2 / 2) * 1) / (t * t))
        = exp (- t\<^sup>2 / 2) / t\<^sup>2"
      using t by (simp add: field_simps power2_eq_square)
    ultimately have "(?h has_real_derivative exp (- t\<^sup>2 / 2) / t\<^sup>2) (at t)"
      by simp
    then show "\<exists>y. (?h has_real_derivative y) (at t) \<and> 0 \<le> y"
      by (intro exI [of _ "exp (- t\<^sup>2 / 2) / t\<^sup>2"]) simp
  qed
  moreover have "0 \<le> exp (- x\<^sup>2 / 2) / x"
    using assms by simp
  ultimately show ?thesis
    by simp
qed

lemma gauss_half_mass_le:
  assumes "0 < a"
  shows "gauss_half_mass \<le> gauss_int a + exp (- a\<^sup>2 / 2) / a"
  unfolding gauss_half_mass_def
proof (rule cSUP_least)
  fix x :: real
  show "gauss_int x \<le> gauss_int a + exp (- a\<^sup>2 / 2) / a"
  proof (cases "a \<le> x")
    case True
    then show ?thesis
      using assms by (intro gauss_tail)
  next
    case False
    then have "gauss_int x \<le> gauss_int a"
      by (intro gauss_int_mono) simp
    moreover have "0 \<le> exp (- a\<^sup>2 / 2) / a"
      using assms by simp
    ultimately show ?thesis
      by linarith
  qed
qed simp

lemma gauss_half_mass_lower: "1.253313418 \<le> gauss_half_mass"
proof -
  have "1.253313418 \<le> 5 * gauss_horner 48 0 (- 25 / 2)"
    by (simp add: eval_nat_numeral)
  also have "\<dots> = gauss_poly 48 5"
    by (simp add: gauss_poly_horner)
  also have "\<dots> \<le> gauss_int 5"
    by (intro gauss_int_ge_poly) simp_all
  also have "\<dots> \<le> gauss_half_mass"
    by (rule gauss_int_le_half_mass)
  finally show ?thesis .
qed

lemma exp_minus_25_half: "exp (- (25 / 2)) \<le> (0.000005 :: real)"
proof -
  have "(\<Sum>m<4. (1 / 2) ^ m / fact m) \<le> exp (1 / 2 :: real)"
    by (rule exp_partial_sum_nonneg) simp
  then have "79 / 48 \<le> exp (1 / 2 :: real)"
    by (simp add: eval_nat_numeral)
  then have "(79 / 48) ^ 25 \<le> exp (1 / 2 :: real) ^ 25"
    by (intro power_mono) simp_all
  also have "\<dots> = exp (25 / 2)"
    using exp_of_nat_mult [of 25 "1 / 2 :: real"] by simp
  finally have "(79 / 48) ^ 25 \<le> exp (25 / 2 :: real)" .
  moreover have "(200000 :: real) \<le> (79 / 48) ^ 25"
    by (simp add: power_divide)
  ultimately have "(200000 :: real) \<le> exp (25 / 2)"
    by linarith
  then have "inverse (exp (25 / 2 :: real)) \<le> inverse (2 * 10 ^ 5)"
    by (intro le_imp_inverse_le) simp_all
  then show ?thesis
    by (simp add: exp_minus)
qed

lemma gauss_half_mass_upper: "gauss_half_mass \<le> 1.253314419"
proof -
  have "gauss_half_mass \<le> gauss_int 5 + exp (- 5\<^sup>2 / 2) / 5"
    by (rule gauss_half_mass_le) simp
  moreover have "gauss_int 5 \<le> gauss_poly 49 5"
    by (intro gauss_int_le_poly) simp_all
  moreover have "gauss_poly 49 5 = 5 * gauss_horner 49 0 (- 25 / 2)"
    by (simp add: gauss_poly_horner)
  moreover have "5 * gauss_horner 49 0 (- 25 / 2) \<le> 1.253313419"
    by (simp add: eval_nat_numeral)
  moreover have "exp (- 5\<^sup>2 / 2) / 5 \<le> (0.000001 :: real)"
    using exp_minus_25_half by simp
  ultimately show ?thesis
    by simp
qed

section \<open>Bounds on \<open>pi\<close>, logarithm and square roots\<close>

lemma arctan_poly_deriv:
  "(arctan_poly n has_real_derivative (\<Sum>k<n. (- x\<^sup>2) ^ k)) (at x)"
proof -
  have "((\<lambda>x. (- 1) ^ k * x ^ (2 * k + 1) / real (2 * k + 1))
          has_real_derivative (- x\<^sup>2) ^ k) (at x)" for k
  proof -
    define c where "c = real (2 * k + 1)"
    have c: "c \<noteq> 0"
      by (simp add: c_def)
    have pw: "(- x\<^sup>2) ^ k = (- 1) ^ k * x ^ (2 * k)"
      using power_mult_distrib [of "- 1" "x\<^sup>2" k] by (simp add: power_mult)
    have "((\<lambda>x. x ^ (2 * k + 1)) has_real_derivative c * x ^ (2 * k)) (at x)"
      using DERIV_pow [of "2 * k + 1" x] by (simp add: c_def)
    then have "((\<lambda>x. (- 1) ^ k * x ^ (2 * k + 1)) has_real_derivative
        (- 1) ^ k * (c * x ^ (2 * k))) (at x)"
      by (rule DERIV_cmult)
    then have "((\<lambda>x. (- 1) ^ k * x ^ (2 * k + 1) / c) has_real_derivative
        (- 1) ^ k * (c * x ^ (2 * k)) / c) (at x)"
      by (rule DERIV_cdivide)
    moreover have "(- 1) ^ k * (c * x ^ (2 * k)) / c = (- x\<^sup>2) ^ k"
      using c pw by simp
    ultimately show ?thesis
      by (simp add: c_def)
  qed
  then show ?thesis
    unfolding arctan_poly_def [abs_def] by (intro DERIV_sum)
qed

lemma ln_poly_deriv:
  "(ln_poly n has_real_derivative (\<Sum>k<n. (- x) ^ k)) (at x)"
proof -
  have "((\<lambda>x. (- 1) ^ k * x ^ (k + 1) / real (k + 1)) has_real_derivative (- x) ^ k) (at x)" for k
  proof -
    define c where "c = real (k + 1)"
    have c: "c \<noteq> 0"
      by (simp add: c_def)
    have pw: "(- x) ^ k = (- 1) ^ k * x ^ k"
      using power_mult_distrib [of "- 1" x k] by simp
    have "((\<lambda>x. x ^ (k + 1)) has_real_derivative c * x ^ k) (at x)"
      using DERIV_pow [of "k + 1" x] by (simp add: c_def)
    then have "((\<lambda>x. (- 1) ^ k * x ^ (k + 1)) has_real_derivative (- 1) ^ k * (c * x ^ k)) (at x)"
      by (rule DERIV_cmult)
    then have "((\<lambda>x. (- 1) ^ k * x ^ (k + 1) / c) has_real_derivative
        (- 1) ^ k * (c * x ^ k) / c) (at x)"
      by (rule DERIV_cdivide)
    moreover have "(- 1) ^ k * (c * x ^ k) / c = (- x) ^ k"
      using c pw by simp
    ultimately show ?thesis
      by (simp add: c_def)
  qed
  then show ?thesis
    unfolding ln_poly_def [abs_def] by (intro DERIV_sum)
qed

lemma geometric_remainder:
  fixes y :: real
  assumes "0 \<le> y"
  shows "inverse (1 + y) - (\<Sum>k<n. (- y) ^ k) = (- y) ^ n / (1 + y)"
proof -
  have "- y \<noteq> 1"
    using assms by auto
  then have "(\<Sum>k<n. (- y) ^ k) = ((- y) ^ n - 1) / (- y - 1)"
    by (rule geometric_sum)
  also have "\<dots> = (1 - (- y) ^ n) / (1 + y)"
    using assms by (simp add: field_simps)
  finally have "(\<Sum>k<n. (- y) ^ k) = (1 - (- y) ^ n) / (1 + y)" .
  moreover have "inverse (1 + y) - (1 - (- y) ^ n) / (1 + y) = (- y) ^ n / (1 + y)"
    by (simp add: inverse_eq_divide diff_divide_distrib [symmetric])
  ultimately show ?thesis
    by simp
qed

lemma arctan_poly_0: "arctan_poly n 0 = 0"
  by (simp add: arctan_poly_def)

lemma ln_poly_0: "ln_poly n 0 = 0"
  by (simp add: ln_poly_def)

lemma arctan_ge_poly:
  assumes "0 \<le> x" "even n"
  shows "arctan_poly n x \<le> arctan x"
proof -
  let ?h = "\<lambda>t. arctan t - arctan_poly n t"
  have "?h 0 \<le> ?h x"
  proof (rule DERIV_nonneg_imp_nondecreasing [OF assms(1)])
    fix t :: real
    have "(?h has_real_derivative (inverse (1 + t\<^sup>2) - (\<Sum>k<n. (- t\<^sup>2) ^ k))) (at t)"
      by (intro DERIV_diff DERIV_arctan arctan_poly_deriv)
    moreover have "0 \<le> (- t\<^sup>2) ^ n / (1 + t\<^sup>2)"
      using assms(2) by (intro divide_nonneg_nonneg zero_le_even_power add_nonneg_nonneg) simp_all
    ultimately show "\<exists>y. (?h has_real_derivative y) (at t) \<and> 0 \<le> y"
      using geometric_remainder [of "t\<^sup>2" n]
      by (intro exI [of _ "inverse (1 + t\<^sup>2) - (\<Sum>k<n. (- t\<^sup>2) ^ k)"]) simp
  qed
  then show ?thesis
    by (simp add: arctan_poly_0)
qed

lemma arctan_le_poly:
  assumes "0 \<le> x" "odd n"
  shows "arctan x \<le> arctan_poly n x"
proof -
  let ?h = "\<lambda>t. arctan_poly n t - arctan t"
  have "?h 0 \<le> ?h x"
  proof (rule DERIV_nonneg_imp_nondecreasing [OF assms(1)])
    fix t :: real
    have "(?h has_real_derivative ((\<Sum>k<n. (- t\<^sup>2) ^ k) - inverse (1 + t\<^sup>2))) (at t)"
      by (intro DERIV_diff DERIV_arctan arctan_poly_deriv)
    moreover have "(- t\<^sup>2) ^ n \<le> 0"
      using assms(2) by (simp add: power_le_zero_eq odd_pos)
    then have "(- t\<^sup>2) ^ n / (1 + t\<^sup>2) \<le> 0"
      by (intro divide_nonpos_nonneg add_nonneg_nonneg) simp_all
    ultimately show "\<exists>y. (?h has_real_derivative y) (at t) \<and> 0 \<le> y"
      using geometric_remainder [of "t\<^sup>2" n]
      by (intro exI [of _ "(\<Sum>k<n. (- t\<^sup>2) ^ k) - inverse (1 + t\<^sup>2)"]) simp
  qed
  then show ?thesis
    by (simp add: arctan_poly_0)
qed

lemma ln_ge_poly:
  assumes "0 \<le> x" "even n"
  shows "ln_poly n x \<le> ln (1 + x)"
proof -
  let ?h = "\<lambda>t. ln (1 + t) - ln_poly n t"
  have "?h 0 \<le> ?h x"
  proof (rule DERIV_nonneg_imp_nondecreasing [OF assms(1)])
    fix t :: real
    assume t: "0 \<le> t"
    have "((\<lambda>t. ln (1 + t)) has_real_derivative inverse (1 + t)) (at t)"
      using t by (auto intro!: derivative_eq_intros simp: field_simps)
    then have "(?h has_real_derivative (inverse (1 + t) - (\<Sum>k<n. (- t) ^ k))) (at t)"
      by (intro DERIV_diff ln_poly_deriv)
    moreover have "0 \<le> (- t) ^ n / (1 + t)"
      using assms(2) t by (intro divide_nonneg_nonneg zero_le_even_power add_nonneg_nonneg) simp_all
    ultimately show "\<exists>y. (?h has_real_derivative y) (at t) \<and> 0 \<le> y"
      using geometric_remainder [OF t, of n]
      by (intro exI [of _ "inverse (1 + t) - (\<Sum>k<n. (- t) ^ k)"]) simp
  qed
  then show ?thesis
    by (simp add: ln_poly_0)
qed

lemma ln_le_poly:
  assumes "0 \<le> x" "odd n"
  shows "ln (1 + x) \<le> ln_poly n x"
proof -
  let ?h = "\<lambda>t. ln_poly n t - ln (1 + t)"
  have "?h 0 \<le> ?h x"
  proof (rule DERIV_nonneg_imp_nondecreasing [OF assms(1)])
    fix t :: real
    assume t: "0 \<le> t"
    have "((\<lambda>t. ln (1 + t)) has_real_derivative inverse (1 + t)) (at t)"
      using t by (auto intro!: derivative_eq_intros simp: field_simps)
    then have "(?h has_real_derivative ((\<Sum>k<n. (- t) ^ k) - inverse (1 + t))) (at t)"
      by (intro DERIV_diff ln_poly_deriv)
    moreover have "(- t) ^ n \<le> 0"
      using assms(2) t by (simp add: power_le_zero_eq odd_pos)
    then have "(- t) ^ n / (1 + t) \<le> 0"
      using t by (intro divide_nonpos_nonneg add_nonneg_nonneg) simp_all
    ultimately show "\<exists>y. (?h has_real_derivative y) (at t) \<and> 0 \<le> y"
      using geometric_remainder [OF t, of n]
      by (intro exI [of _ "(\<Sum>k<n. (- t) ^ k) - inverse (1 + t)"]) simp
  qed
  then show ?thesis
    by (simp add: ln_poly_0)
qed

lemma pi_lower: "3.1415916 \<le> pi"
proof -
  have "arctan_poly 4 (1 / 5) \<le> arctan (1 / 5)"
    by (intro arctan_ge_poly) simp_all
  moreover have "arctan (1 / 239) \<le> arctan_poly 1 (1 / 239)"
    by (intro arctan_le_poly) simp_all
  moreover have "3.1415916 \<le> 4 * (4 * arctan_poly 4 (1 / 5) - arctan_poly 1 (1 / 239))"
    by (simp add: arctan_poly_def eval_nat_numeral)
  ultimately show ?thesis
    using machin by simp
qed

lemma pi_upper: "pi \<le> 3.1415927"
proof -
  have "arctan (1 / 5) \<le> arctan_poly 5 (1 / 5)"
    by (intro arctan_le_poly) simp_all
  moreover have "arctan_poly 2 (1 / 239) \<le> arctan (1 / 239)"
    by (intro arctan_ge_poly) simp_all
  moreover have "4 * (4 * arctan_poly 5 (1 / 5) - arctan_poly 2 (1 / 239)) \<le> 3.1415927"
    by (simp add: arctan_poly_def eval_nat_numeral)
  ultimately show ?thesis
    using machin by simp
qed

lemma sqrt_2pi_lower: "2.5066277 \<le> sqrt (2 * pi)"
proof (rule real_le_rsqrt)
  have "(2.5066277)\<^sup>2 \<le> 2 * (3.1415916 :: real)"
    by (simp add: power2_eq_square)
  then show "(2.5066277)\<^sup>2 \<le> 2 * pi"
    using pi_lower by simp
qed

lemma sqrt_2pi_upper: "sqrt (2 * pi) \<le> 2.5066284"
proof (rule real_le_lsqrt)
  have "2 * (3.1415927 :: real) \<le> (2.5066284)\<^sup>2"
    by (simp add: power2_eq_square)
  then show "2 * pi \<le> (2.5066284)\<^sup>2"
    using pi_upper by simp
qed simp

lemma ln_23_22_lower: "0.044451725 \<le> ln (23 / 22 :: real)"
proof -
  have "ln_poly 4 (1 / 22) \<le> ln (1 + 1 / 22)"
    by (intro ln_ge_poly) simp_all
  moreover have "0.044451725 \<le> ln_poly 4 (1 / 22)"
    by (simp add: ln_poly_def eval_nat_numeral)
  ultimately show ?thesis
    by simp
qed

lemma ln_23_22_upper: "ln (23 / 22 :: real) \<le> 0.044451764"
proof -
  have "ln (1 + 1 / 22) \<le> ln_poly 5 (1 / 22)"
    by (intro ln_le_poly) simp_all
  moreover have "ln_poly 5 (1 / 22) \<le> 0.044451764"
    by (simp add: ln_poly_def eval_nat_numeral)
  ultimately show ?thesis
    by simp
qed

lemma sqrt_3_lower: "1.7320508 \<le> sqrt 3"
  by (rule real_le_rsqrt) (simp add: power2_eq_square)

lemma sqrt_3_upper: "sqrt 3 \<le> 1.7320509"
  by (rule real_le_lsqrt) (simp_all add: power2_eq_square)

section \<open>The value of the example\<close>

lemma exp_upper_partial_sum:
  assumes "0 \<le> x" "x \<le> 1"
  shows "exp (x::real) \<le> (\<Sum>m<n. x ^ m / fact m) + 3 * x ^ n / fact n"
proof -
  obtain t where t: "\<bar>t\<bar> \<le> \<bar>x\<bar>"
    and e: "exp x = (\<Sum>m<n. x ^ m / fact m) + exp t / fact n * x ^ n"
    using Maclaurin_exp_le [of x n] by blast
  have "exp t \<le> exp 1"
    using t assms by simp
  then have "exp t \<le> 3"
    using exp_le by linarith
  then have "exp t * (x ^ n / fact n) \<le> 3 * (x ^ n / fact n)"
    using assms by (intro mult_right_mono) simp_all
  then show ?thesis
    using e by simp
qed

lemma exp_minus_3_20_lower: "0.86070795 \<le> exp (- (3 / 20) :: real)"
proof -
  have "exp (3 / 20 :: real) \<le> (\<Sum>m<6. (3 / 20) ^ m / fact m) + 3 * (3 / 20) ^ 6 / fact 6"
    by (rule exp_upper_partial_sum) simp_all
  also have "\<dots> \<le> inverse 0.86070795"
    by (simp add: eval_nat_numeral)
  finally have "inverse (inverse (0.86070795 :: real)) \<le> inverse (exp (3 / 20))"
    by (intro le_imp_inverse_le) simp_all
  then show ?thesis
    by (simp add: exp_minus)
qed

lemma exp_minus_3_20_upper: "exp (- (3 / 20) :: real) \<le> 0.86070799"
proof -
  have "inverse 0.86070799 \<le> (\<Sum>m<6. (3 / 20 :: real) ^ m / fact m)"
    by (simp add: eval_nat_numeral)
  also have "\<dots> \<le> exp (3 / 20)"
    by (rule exp_partial_sum_nonneg) simp
  finally have "inverse (exp (3 / 20 :: real)) \<le> inverse (inverse 0.86070799)"
    by (intro le_imp_inverse_le) simp_all
  then show ?thesis
    by (simp add: exp_minus)
qed

lemma ln_110_115: "ln (110 / 115 :: real) = - ln (23 / 22)"
proof -
  have "ln (110 / 115 :: real) = ln (inverse (23 / 22))"
    by simp
  also have "\<dots> = - ln (23 / 22)"
    by (simp only: ln_inverse)
  finally show ?thesis .
qed

lemma d_plus_example:
  "d_plus 110 115 3 (1 / 20) (1 / 20) * sqrt 3 = 20 * (123 / 800 - ln (23 / 22))"
proof -
  have "(- l + (1 / 20 + 0.5 * (1 / 20)\<^sup>2) * 3) / (1 / 20 * s) * s = 20 * (123 / 800 - l)"
    if "s \<noteq> 0" for l s :: real
    using that by (simp add: power2_eq_square field_simps)
  from this [of "sqrt 3" "ln (23 / 22)"] show ?thesis
    unfolding d_plus_def ln_110_115 by simp
qed

lemma d_plus_example_bounds:
  "1.262067 \<le> d_plus 110 115 3 (1 / 20) (1 / 20)"
  "d_plus 110 115 3 (1 / 20) (1 / 20) \<le> 1.262068"
proof -
  define d where "d = d_plus 110 115 3 (1 / 20) (1 / 20)"
  define s where "s = sqrt 3"
  define l :: real where "l = ln (23 / 22)"
  have s: "1.7320508 \<le> s" "s \<le> 1.7320509"
    using sqrt_3_lower sqrt_3_upper by (simp_all add: s_def)
  have l: "0.044451725 \<le> l" "l \<le> 0.044451764"
    using ln_23_22_lower ln_23_22_upper by (simp_all add: l_def)
  have ds: "d * s = 20 * (123 / 800 - l)"
    using d_plus_example by (simp add: d_def s_def l_def)
  have s0: "0 < s"
    by (simp add: s_def)
  have "1.262067 * s \<le> d * s"
    using s l unfolding ds by simp
  then show "1.262067 \<le> d_plus 110 115 3 (1 / 20) (1 / 20)"
    using s0 by (simp add: d_def)
  have "d * s \<le> 1.262068 * s"
    using s l unfolding ds by simp
  then show "d_plus 110 115 3 (1 / 20) (1 / 20) \<le> 1.262068"
    using s0 by (simp add: d_def)
qed

lemma d_minus_example_bounds:
  "1.175464 \<le> d_plus 110 115 3 (1 / 20) (1 / 20) - 1 / 20 * sqrt 3"
  "d_plus 110 115 3 (1 / 20) (1 / 20) - 1 / 20 * sqrt 3 \<le> 1.175466"
  using d_plus_example_bounds sqrt_3_lower sqrt_3_upper by simp_all

lemma std_norm_cdf_upper:
  assumes "0 \<le> x" "x \<le> b" "odd N" "gauss_poly N b \<le> e"
  shows "std_norm_cdf x \<le> (1.253314419 + e) / 2.5066277"
proof -
  have "gauss_int x \<le> gauss_int b"
    using assms by (intro gauss_int_mono)
  also have "\<dots> \<le> gauss_poly N b"
    using assms by (intro gauss_int_le_poly) simp_all
  finally have "gauss_int x \<le> e"
    using assms by simp
  then have "gauss_half_mass + gauss_int x \<le> 1.253314419 + e"
    using gauss_half_mass_upper by simp
  moreover have "0 \<le> gauss_half_mass + gauss_int x"
    using std_norm_cdf_pos [of x] by (simp add: std_norm_cdf_def zero_less_divide_iff)
  ultimately show ?thesis
    unfolding std_norm_cdf_def using sqrt_2pi_lower by (intro frac_le) simp_all
qed

lemma std_norm_cdf_lower:
  assumes "0 \<le> a" "a \<le> x" "even N" "e \<le> gauss_poly N a" "0 \<le> e"
  shows "(1.253313418 + e) / 2.5066284 \<le> std_norm_cdf x"
proof -
  have "e \<le> gauss_poly N a"
    by fact
  also have "\<dots> \<le> gauss_int a"
    using assms by (intro gauss_int_ge_poly) simp_all
  also have "\<dots> \<le> gauss_int x"
    using assms by (intro gauss_int_mono)
  finally have "1.253313418 + e \<le> gauss_half_mass + gauss_int x"
    using gauss_half_mass_lower by simp
  then show ?thesis
    unfolding std_norm_cdf_def using sqrt_2pi_upper assms(5) by (intro frac_le) simp_all
qed

lemma gauss_poly_values:
  "0.99397251 \<le> gauss_poly 10 1.262067"
  "gauss_poly 11 1.262068 \<le> 0.99397297"
  "0.95275796 \<le> gauss_poly 10 1.175464"
  "gauss_poly 11 1.175466 \<le> 0.95275897"
  by (simp_all add: gauss_poly_horner eval_nat_numeral power2_eq_square)

lemma std_norm_cdf_example_bounds:
  "0.8965373 \<le> std_norm_cdf (d_plus 110 115 3 (1 / 20) (1 / 20))"
  "std_norm_cdf (d_plus 110 115 3 (1 / 20) (1 / 20)) \<le> 0.8965382"
  "0.8800951 \<le> std_norm_cdf (d_plus 110 115 3 (1 / 20) (1 / 20) - 1 / 20 * sqrt 3)"
  "std_norm_cdf (d_plus 110 115 3 (1 / 20) (1 / 20) - 1 / 20 * sqrt 3) \<le> 0.8800962"
proof -
  let ?d = "d_plus 110 115 3 (1 / 20) (1 / 20)"
  have "(1.253313418 + 0.99397251) / 2.5066284 \<le> std_norm_cdf ?d"
    using d_plus_example_bounds(1) gauss_poly_values(1)
    by (intro std_norm_cdf_lower [of "1.262067" _ 10]) simp_all
  then show "0.8965373 \<le> std_norm_cdf ?d"
    by simp
  have "std_norm_cdf ?d \<le> (1.253314419 + 0.99397297) / 2.5066277"
    using d_plus_example_bounds gauss_poly_values(2)
    by (intro std_norm_cdf_upper [of _ "1.262068" 11]) simp_all
  then show "std_norm_cdf ?d \<le> 0.8965382"
    by simp
  have "(1.253313418 + 0.95275796) / 2.5066284 \<le> std_norm_cdf (?d - 1 / 20 * sqrt 3)"
    using d_minus_example_bounds(1) gauss_poly_values(3)
    by (intro std_norm_cdf_lower [of "1.175464" _ 10]) simp_all
  then show "0.8800951 \<le> std_norm_cdf (?d - 1 / 20 * sqrt 3)"
    by simp
  have "std_norm_cdf (?d - 1 / 20 * sqrt 3) \<le> (1.253314419 + 0.95275897) / 2.5066277"
    using d_minus_example_bounds gauss_poly_values(4)
    by (intro std_norm_cdf_upper [of _ "1.175466" 11]) simp_all
  then show "std_norm_cdf (?d - 1 / 20 * sqrt 3) \<le> 0.8800962"
    by simp
qed

lemma closed_form_example:
  "\<bar>closed_form 110 115 3 (1 / 20) (1 / 20) - 11.506\<bar> < 0.0005"
proof -
  define p1 where "p1 = std_norm_cdf (d_plus 110 115 3 (1 / 20) (1 / 20))"
  define p2 where "p2 = std_norm_cdf (d_plus 110 115 3 (1 / 20) (1 / 20) - 1 / 20 * sqrt 3)"
  define e :: real where "e = exp (- (3 / 20))"
  have p1: "0.8965373 \<le> p1" "p1 \<le> 0.8965382"
    using std_norm_cdf_example_bounds by (simp_all add: p1_def)
  have p2: "0.8800951 \<le> p2" "p2 \<le> 0.8800962"
    using std_norm_cdf_example_bounds by (simp_all add: p2_def)
  have e: "0.86070795 \<le> e" "e \<le> 0.86070799"
    using exp_minus_3_20_lower exp_minus_3_20_upper by (simp_all add: e_def)
  define q where "q = e * p2"
  have "0.86070795 * 0.8800951 \<le> e * p2"
    using e p2 by (intro mult_mono) simp_all
  then have q1: "0.7575048 \<le> q"
    by (simp add: q_def)
  have "e * p2 \<le> 0.86070799 * 0.8800962"
    using e p2 by (intro mult_mono) simp_all
  then have q2: "q \<le> 0.7575059"
    by (simp add: q_def)
  have cf: "closed_form 110 115 3 (1 / 20) (1 / 20) = 110 * p1 - 115 * q"
    by (simp add: closed_form_def p1_def p2_def e_def q_def)
  have "11.5055 < 110 * p1 - 115 * q"
    using p1 q2 by simp
  moreover have "110 * p1 - 115 * q < 11.5065"
    using p1 q1 by simp
  ultimately have "- 0.0005 < 110 * p1 - 115 * q - 11.506" "110 * p1 - 115 * q - 11.506 < 0.0005"
    by simp_all
  then show ?thesis
    unfolding cf by (simp only: abs_less_iff) simp
qed

section \<open>Operations inside the range of the floats\<close>

lemma float_min_bound_small: "0 < float_min_bound" "float_min_bound < 1 / 1000"
proof -
  show "0 < float_min_bound"
    by (simp add: float_min_bound_def)
  have "(2::real) ^ 10 \<le> 2 ^ 1075"
    by (rule power_increasing) simp_all
  then have "(1000::real) < 2 ^ 1075"
    by simp
  then show "float_min_bound < 1 / 1000"
    unfolding float_min_bound_def by (intro divide_strict_left_mono) simp_all
qed

lemma float_max_bound_large: "1000 < float_max_bound"
proof -
  have "(2::real) ^ 970 \<le> 2 ^ 1023"
    by (rule power_increasing) simp_all
  moreover have "(2::real) ^ 1024 = 2 * 2 ^ 1023"
    by simp
  moreover have "(2::real) ^ 10 \<le> 2 ^ 1023"
    by (rule power_increasing) simp_all
  ultimately show ?thesis
    unfolding float_max_bound_def by simp
qed

lemma in_float_range_iff:
  "in_float_range x \<longleftrightarrow> \<bar>x\<bar> < float_max_bound \<and> (x = 0 \<or> float_min_bound < \<bar>x\<bar>)"
  using float_min_bound_small(1) float_max_bound_large
  by (auto simp: in_float_range_def fl_def)

lemma in_float_range_0: "in_float_range 0"
  using float_max_bound_large by (simp add: in_float_range_iff)

lemma in_float_range_moderate:
  assumes "1 / 1000 \<le> \<bar>x\<bar>" "\<bar>x\<bar> \<le> 1000"
  shows "in_float_range x"
  using assms float_min_bound_small(2) float_max_bound_large
  by (simp add: in_float_range_iff)

lemma f_add_Fin: "in_float_range (x + y) \<Longrightarrow> f_add (Fin x) (Fin y) = Fin (x + y)"
  by (simp add: in_float_range_def)

lemma f_sub_Fin: "in_float_range (x - y) \<Longrightarrow> f_sub (Fin x) (Fin y) = Fin (x - y)"
  by (simp add: in_float_range_def f_sub_def)

lemma f_mul_Fin: "in_float_range (x * y) \<Longrightarrow> f_mul (Fin x) (Fin y) = Fin (x * y)"
  by (simp add: in_float_range_def)

lemma py_truediv_Fin:
  "y \<noteq> 0 \<Longrightarrow> in_float_range (x / y) \<Longrightarrow> py_truediv (Fin x) (Fin y) = Inr (Fin (x / y))"
  by (simp add: in_float_range_def py_truediv_def)

lemma py_pow_Fin: "in_float_range (x ^ n) \<Longrightarrow> py_pow (Fin x) n = Inr (Fin (x ^ n))"
  by (simp add: in_float_range_iff in_float_range_def [symmetric])

lemma math_log_Fin: "0 < x \<Longrightarrow> math_log (Fin x) = Inr (Fin (ln x))"
  by simp

lemma math_sqrt_Fin: "0 \<le> x \<Longrightarrow> math_sqrt (Fin x) = Inr (Fin (sqrt x))"
  by simp

lemma math_exp_Fin: "in_float_range (exp x) \<Longrightarrow> math_exp (Fin x) = Inr (Fin (exp x))"
  by (simp add: in_float_range_iff in_float_range_def [symmetric])

lemma np_exp_Fin: "in_float_range (exp x) \<Longrightarrow> np_exp (Fin x) = Fin (exp x)"
  by (simp add: in_float_range_def)

lemma norm_cdf_Fin:
  "in_float_range (std_norm_cdf x) \<Longrightarrow> norm_cdf (Fin x) 0 1 = Fin (std_norm_cdf x)"
  by (simp add: in_float_range_def)


section \<open>The closed form and its two implementations\<close>

lemma Option_d1_in_range:
  assumes pos: "0 < S" "0 < K" "0 < T" "0 < v"
    and rng: "d1_in_range S K T r v"
  shows "Option_d1 (Option_init S K T r v) = Inr (Fin (d_plus S K T r v))"
proof -
  have q: "py_truediv (Fin S) (Fin K) = Inr (Fin (S / K))"
    using pos rng by (intro py_truediv_Fin) (simp_all add: d1_in_range_def)
  have l: "math_log (Fin (S / K)) = Inr (Fin (ln (S / K)))"
    using pos by (intro math_log_Fin) simp
  have v2: "py_pow (Fin v) 2 = Inr (Fin (v\<^sup>2))"
    using rng by (intro py_pow_Fin) (simp add: d1_in_range_def)
  have h: "f_mul (Fin 0.5) (Fin (v\<^sup>2)) = Fin (0.5 * v\<^sup>2)"
    using rng by (intro f_mul_Fin) (simp add: d1_in_range_def)
  have a: "f_add (Fin r) (Fin (0.5 * v\<^sup>2)) = Fin (r + 0.5 * v\<^sup>2)"
    using rng by (intro f_add_Fin) (simp add: d1_in_range_def)
  have m: "f_mul (Fin (r + 0.5 * v\<^sup>2)) (Fin T) = Fin ((r + 0.5 * v\<^sup>2) * T)"
    using rng by (intro f_mul_Fin) (simp add: d1_in_range_def)
  have n: "f_add (Fin (ln (S / K))) (Fin ((r + 0.5 * v\<^sup>2) * T))
      = Fin (ln (S / K) + (r + 0.5 * v\<^sup>2) * T)"
    using rng by (intro f_add_Fin) (simp add: d1_in_range_def)
  have s: "math_sqrt (Fin T) = Inr (Fin (sqrt T))"
    using pos by (intro math_sqrt_Fin) simp
  have b: "f_mul (Fin v) (Fin (sqrt T)) = Fin (v * sqrt T)"
    using rng by (intro f_mul_Fin) (simp add: d1_in_range_def)
  have "v * sqrt T \<noteq> 0"
    using pos by simp
  moreover have "in_float_range ((ln (S / K) + (r + 0.5 * v\<^sup>2) * T) / (v * sqrt T))"
    using rng by (simp add: d1_in_range_def d_plus_def)
  ultimately have d: "py_truediv (Fin (ln (S / K) + (r + 0.5 * v\<^sup>2) * T)) (Fin (v * sqrt T))
      = Inr (Fin (d_plus S K T r v))"
    unfolding d_plus_def by (rule py_truediv_Fin)
  show ?thesis
    unfolding Option_d1_def Option_init_def py_float_def
    by (simp only: Option_obj.simps q l v2 h a m n s b d sum.case)
qed

lemma Call_Option_in_range:
  assumes pos: "0 < S" "0 < K" "0 < T" "0 < v"
    and rng: "BSM_in_range S K T r v"
  shows "Call_Option (Option_init S K T r v) = Inr (Fin (closed_form S K T r v))"
proof -
  let ?d = "d_plus S K T r v"
  have d1: "Option_d1 (Option_init S K T r v) = Inr (Fin ?d)"
    using pos rng by (intro Option_d1_in_range) (simp_all add: BSM_in_range_def)
  have s: "math_sqrt (Fin T) = Inr (Fin (sqrt T))"
    using pos by (intro math_sqrt_Fin) simp
  have b: "f_mul (Fin v) (Fin (sqrt T)) = Fin (v * sqrt T)"
    using rng by (intro f_mul_Fin) (simp add: BSM_in_range_def d1_in_range_def)
  have d2: "f_sub (Fin ?d) (Fin (v * sqrt T)) = Fin (?d - v * sqrt T)"
    using rng by (intro f_sub_Fin) (simp add: BSM_in_range_def)
  have c1: "norm_cdf (Fin ?d) 0 1 = Fin (std_norm_cdf ?d)"
    using rng by (intro norm_cdf_Fin) (simp add: BSM_in_range_def)
  have t1: "f_mul (Fin S) (Fin (std_norm_cdf ?d)) = Fin (S * std_norm_cdf ?d)"
    using rng by (intro f_mul_Fin) (simp add: BSM_in_range_def)
  have rt: "f_mul (Fin (- r)) (Fin T) = Fin (- r * T)"
    using rng by (intro f_mul_Fin) (simp add: BSM_in_range_def)
  have e: "math_exp (Fin (- r * T)) = Inr (Fin (exp (- r * T)))"
    using rng by (intro math_exp_Fin) (simp add: BSM_in_range_def)
  have ke: "f_mul (Fin K) (Fin (exp (- r * T))) = Fin (K * exp (- r * T))"
    using rng by (intro f_mul_Fin) (simp add: BSM_in_range_def)
  have c2: "norm_cdf (Fin (?d - v * sqrt T)) 0 1 = Fin (std_norm_cdf (?d - v * sqrt T))"
    using rng by (intro norm_cdf_Fin) (simp add: BSM_in_range_def)
  have t2: "f_mul (Fin (K * exp (- r * T))) (Fin (std_norm_cdf (?d - v * sqrt T)))
      = Fin (K * exp (- r * T) * std_norm_cdf (?d - v * sqrt T))"
    using rng by (intro f_mul_Fin) (simp add: BSM_in_range_def)
  have p: "f_sub (Fin (S * std_norm_cdf ?d))
             (Fin (K * exp (- r * T) * std_norm_cdf (?d - v * sqrt T)))
      = Fin (closed_form S K T r v)"
    unfolding closed_form_def using rng
    by (intro f_sub_Fin) (simp add: BSM_in_range_def closed_form_def)
  have fields: "self_S0 (Option_init S K T r v) = Fin S" "self_K (Option_init S K T r v) = K"
    "self_T (Option_init S K T r v) = T" "self_r (Option_init S K T r v) = r"
    "self_vola (Option_init S K T r v) = v"
    by (simp_all add: Option_init_def py_float_def)
  show ?thesis
    unfolding Call_Option_def
    by (simp only: d1 fields s b d2 c1 t1 rt e ke c2 t2 p sum.case Let_def f_neg.simps)
qed

lemma Call_Option_eq_BSM:
  "Call_Option (Option_init S_0 K T r vola) = BSM_call_value S_0 K T r vola"
  by (simp add: Call_Option_def Option_d1_def Option_init_def BSM_call_value_def Let_def
      split: sum.splits)

lemma BSM_call_value_in_range:
  assumes "0 < S" "0 < K" "0 < T" "0 < v" "BSM_in_range S K T r v"
  shows "BSM_call_value S K T r v = Inr (Fin (closed_form S K T r v))"
  using Call_Option_in_range [OF assms] by (simp only: Call_Option_eq_BSM)


section \<open>The example of the notebook stays inside the range\<close>

lemma example_d1_in_range: "d1_in_range 110 115 3 (1 / 20) (1 / 20)"
proof -
  have l: "0.044451725 \<le> ln (23 / 22 :: real)" "ln (23 / 22 :: real) \<le> 0.044451764"
    by (rule ln_23_22_lower, rule ln_23_22_upper)
  have s: "1.7320508 \<le> sqrt 3" "sqrt 3 \<le> 1.7320509"
    by (rule sqrt_3_lower, rule sqrt_3_upper)
  have "in_float_range (110 / 115)"
    by (rule in_float_range_moderate) simp_all
  moreover have "in_float_range ((1 / 20)\<^sup>2)"
    by (rule in_float_range_moderate) (simp_all add: power2_eq_square)
  moreover have "in_float_range (0.5 * (1 / 20)\<^sup>2)"
    by (rule in_float_range_moderate) (simp_all add: power2_eq_square)
  moreover have "in_float_range (1 / 20 + 0.5 * (1 / 20)\<^sup>2)"
    by (rule in_float_range_moderate) (simp_all add: power2_eq_square)
  moreover have "in_float_range ((1 / 20 + 0.5 * (1 / 20)\<^sup>2) * 3)"
    by (rule in_float_range_moderate) (simp_all add: power2_eq_square)
  moreover have "in_float_range (ln (110 / 115) + (1 / 20 + 0.5 * (1 / 20)\<^sup>2) * 3)"
    unfolding ln_110_115 using l
    by (intro in_float_range_moderate) (simp_all add: power2_eq_square abs_if)
  moreover have "in_float_range (1 / 20 * sqrt 3)"
    using s by (intro in_float_range_moderate) simp_all
  moreover have "in_float_range (d_plus 110 115 3 (1 / 20) (1 / 20))"
    using d_plus_example_bounds by (intro in_float_range_moderate) simp_all
  ultimately show ?thesis
    unfolding d1_in_range_def by (intro conjI)
qed

lemma example_BSM_in_range: "BSM_in_range 110 115 3 (1 / 20) (1 / 20)"
proof -
  let ?d = "d_plus 110 115 3 (1 / 20) (1 / 20)"
  define p1 where "p1 = std_norm_cdf ?d"
  define p2 where "p2 = std_norm_cdf (?d - 1 / 20 * sqrt 3)"
  define e :: real where "e = exp (- (1 / 20) * 3)"
  have p1: "0.8965373 \<le> p1" "p1 \<le> 0.8965382"
    using std_norm_cdf_example_bounds by (simp_all add: p1_def)
  have p2: "0.8800951 \<le> p2" "p2 \<le> 0.8800962"
    using std_norm_cdf_example_bounds by (simp_all add: p2_def)
  have e: "0.86070795 \<le> e" "e \<le> 0.86070799"
    using exp_minus_3_20_lower exp_minus_3_20_upper by (simp_all add: e_def)
  have "in_float_range (?d - 1 / 20 * sqrt 3)"
    using d_minus_example_bounds by (intro in_float_range_moderate) simp_all
  moreover have "in_float_range p1"
    using p1 by (intro in_float_range_moderate) simp_all
  moreover have "in_float_range (110 * p1)"
    using p1 by (intro in_float_range_moderate) simp_all
  moreover have "in_float_range (- (1 / 20) * 3)"
    by (rule in_float_range_moderate) simp_all
  moreover have "in_float_range e"
    using e by (intro in_float_range_moderate) simp_all
  moreover have "in_float_range (115 * e)"
    using e by (intro in_float_range_moderate) simp_all
  moreover have "in_float_range p2"
    using p2 by (intro in_float_range_moderate) simp_all
  moreover have "in_float_range (115 * e * p2)"
  proof (rule in_float_range_moderate)
    have "0 \<le> 115 * e * p2"
      using e p2 by simp
    have "(115 * 0.86) * 0.88 \<le> (115 * e) * p2"
      using e p2 by (intro mult_mono) simp_all
    moreover have "(115 * e) * p2 \<le> (115 * 0.87) * 0.89"
      using e p2 by (intro mult_mono) simp_all
    ultimately show "1 / 1000 \<le> \<bar>115 * e * p2\<bar>" "\<bar>115 * e * p2\<bar> \<le> 1000"
      by simp_all
  qed
  moreover have "in_float_range (closed_form 110 115 3 (1 / 20) (1 / 20))"
    using closed_form_example by (intro in_float_range_moderate) (simp_all add: abs_if split: if_splits)
  ultimately show ?thesis
    unfolding BSM_in_range_def p1_def p2_def e_def using example_d1_in_range by (intro conjI)
qed

text \<open>
  C6. For spot \<open>110\<close>, strike \<open>115\<close>, maturity \<open>3\<close>, rate \<open>0.05\<close> and volatility
  \<open>0.05\<close>, the parameters of the notebook, the closed-form call value is a finite number
  and is \<open>11.506\<close> to three decimals: it differs from \<open>11.506\<close> by less than \<open>0.0005\<close>.
\<close>

theorem C6_example_value:
  "\<exists>p. BSM_call_value 110 115 3 0.05 0.05 = Inr (Fin p) \<and> \<bar>p - 11.506\<bar> < 0.0005"
proof -
  have "BSM_call_value 110 115 3 (1 / 20) (1 / 20)
      = Inr (Fin (closed_form 110 115 3 (1 / 20) (1 / 20)))"
    by (rule BSM_call_value_in_range [OF _ _ _ _ example_BSM_in_range]) simp_all
  then show ?thesis
    using closed_form_example by simp
qed

text \<open>
  C10. The method \<open>Call_Option\<close> of class \<open>Option\<close>, which class \<open>OptionVega\<close> inherits
  unchanged, and the function \<open>BSM_call_value\<close> return the same result on the same
  \<open>(S0, K, T, r, vola)\<close>. This holds for every input: where one raises an exception, the
  other raises the same one.
\<close>

theorem C10_class_equals_function:
  "Call_Option (Option_init S0 K T r vola) = BSM_call_value S0 K T r vola
   \<and> Call_Option (OptionVega_init S0 K T r vola) = BSM_call_value S0 K T r vola"
  by (simp add: OptionVega_init_def Call_Option_eq_BSM)










section \<open>The Monte Carlo estimator\<close>

lemma standard_normal_nonneg:
  "0 \<le> n \<Longrightarrow> standard_normal n g = (Inr (map g [0..<nat n]), (\<lambda>k. g (k + nat n)))"
  by (simp add: standard_normal_def)

lemma MCS_cell_cases:
  "MCS_cell S_0 K T r vola I g =
     (if I < 0 then (Inl ValueError, g)
      else (MCS_pv S_0 K T r vola I (map g [0..<nat I]), (\<lambda>k. g (k + nat I))))"
  by (simp add: MCS_cell_def standard_normal_def)

lemma discounted_payoff_nonneg: "0 \<le> discounted_payoff S K T r v z"
  by (simp add: discounted_payoff_def)

lemma foldl_f_add_Fin:
  assumes "\<forall>x\<in>set xs. 0 \<le> x \<and> in_float_range x"
    and "0 \<le> acc" "in_float_range acc" "acc + sum_list xs < float_max_bound"
  shows "foldl f_add (Fin acc) (map Fin xs) = Fin (acc + sum_list xs)"
  using assms
proof (induction xs arbitrary: acc)
  case Nil
  then show ?case by simp
next
  case (Cons x xs)
  have x: "0 \<le> x" "in_float_range x"
    using Cons.prems(1) by simp_all
  have rest: "0 \<le> sum_list xs"
    using Cons.prems(1) by (intro sum_list_nonneg) simp
  have "acc + x < float_max_bound"
    using Cons.prems(4) rest by simp
  moreover have "acc + x = 0 \<or> float_min_bound < acc + x"
    using x Cons.prems(2,3) by (auto simp: in_float_range_iff)
  ultimately have sum: "in_float_range (acc + x)"
    using x Cons.prems(2) by (simp add: in_float_range_iff)
  have "foldl f_add (Fin (acc + x)) (map Fin xs) = Fin (acc + x + sum_list xs)"
    using Cons.prems x sum by (intro Cons.IH) (simp_all add: add.assoc)
  moreover have "f_add (Fin acc) (Fin x) = Fin (acc + x)"
    using sum by (rule f_add_Fin)
  ultimately show ?case
    by (simp add: add.assoc del: f_add.simps)
qed

lemma np_sum_Fin:
  assumes "\<forall>x\<in>set xs. 0 \<le> x \<and> in_float_range x" "sum_list xs < float_max_bound"
  shows "np_sum (map Fin xs) = Fin (sum_list xs)"
  using foldl_f_add_Fin [of xs 0] assms in_float_range_0 by (simp add: np_sum_def)

lemma MCS_pv_in_range:
  assumes T: "0 \<le> T" and I: "0 < I" and rng: "MCS_in_range S K T r v I zs"
  shows "MCS_pv S K T r v I zs
    = Inr (Fin (sum_list (map (discounted_payoff S K T r v) zs) / real_of_int I))"
proof -
  let ?a = "(r - 0.5 * v\<^sup>2) * T"
  let ?b = "sqrt T * v"
  let ?D = "exp (- r * T)"
  have v2: "py_pow (Fin v) 2 = Inr (Fin (v\<^sup>2))"
    using rng by (intro py_pow_Fin) (simp add: MCS_in_range_def)
  have h: "f_mul (Fin 0.5) (Fin (v\<^sup>2)) = Fin (0.5 * v\<^sup>2)"
    using rng by (intro f_mul_Fin) (simp add: MCS_in_range_def)
  have a': "f_sub (Fin r) (Fin (0.5 * v\<^sup>2)) = Fin (r - 0.5 * v\<^sup>2)"
    using rng by (intro f_sub_Fin) (simp add: MCS_in_range_def)
  have a: "f_mul (Fin (r - 0.5 * v\<^sup>2)) (Fin T) = Fin ?a"
    using rng by (intro f_mul_Fin) (simp add: MCS_in_range_def)
  have s: "np_sqrt (Fin T) = Fin (sqrt T)"
    using T by simp
  have b: "f_mul (Fin (sqrt T)) (Fin v) = Fin ?b"
    using rng by (intro f_mul_Fin) (simp add: MCS_in_range_def)
  have rt: "f_mul (Fin (- r)) (Fin T) = Fin (- r * T)"
    using rng by (intro f_mul_Fin) (simp add: MCS_in_range_def)
  have D: "np_exp (Fin (- r * T)) = Fin ?D"
    using rng by (intro np_exp_Fin) (simp add: MCS_in_range_def)
  have path: "f_mul (np_maximum (f_sub (f_mul (Fin S) (np_exp (f_add (Fin ?a) (f_mul (Fin ?b) (Fin z)))))
                  (Fin K)) 0) (Fin ?D) = Fin (discounted_payoff S K T r v z)"
    if "z \<in> set zs" for z
  proof -
    have z: "in_float_range (sqrt T * v * z)"
      "in_float_range ((r - 0.5 * v\<^sup>2) * T + sqrt T * v * z)"
      "in_float_range (exp ((r - 0.5 * v\<^sup>2) * T + sqrt T * v * z))"
      "in_float_range (terminal_price S T r v z)"
      "in_float_range (terminal_price S T r v z - K)"
      "in_float_range (discounted_payoff S K T r v z)"
      using rng that by (simp_all add: MCS_in_range_def)
    have 1: "f_mul (Fin ?b) (Fin z) = Fin (?b * z)"
      using z(1) by (rule f_mul_Fin)
    have 2: "f_add (Fin ?a) (Fin (?b * z)) = Fin (?a + ?b * z)"
      using z(2) by (rule f_add_Fin)
    have 3: "np_exp (Fin (?a + ?b * z)) = Fin (exp (?a + ?b * z))"
      using z(3) by (rule np_exp_Fin)
    have 4: "f_mul (Fin S) (Fin (exp (?a + ?b * z))) = Fin (terminal_price S T r v z)"
      unfolding terminal_price_def using z(4) unfolding terminal_price_def by (rule f_mul_Fin)
    have 5: "f_sub (Fin (terminal_price S T r v z)) (Fin K) = Fin (terminal_price S T r v z - K)"
      using z(5) by (rule f_sub_Fin)
    have 6: "np_maximum (Fin (terminal_price S T r v z - K)) 0
        = Fin (max (terminal_price S T r v z - K) 0)"
      by simp
    have 7: "f_mul (Fin (max (terminal_price S T r v z - K) 0)) (Fin ?D)
        = Fin (discounted_payoff S K T r v z)"
      unfolding discounted_payoff_def using z(6) unfolding discounted_payoff_def
      by (rule f_mul_Fin)
    show ?thesis
      by (simp only: 1 2 3 4 5 6 7)
  qed
  have "map (\<lambda>st. f_mul (np_maximum (f_sub st (Fin K)) 0) (Fin ?D))
          (map (\<lambda>z. f_mul (Fin S) (np_exp (f_add (Fin ?a) (f_mul (Fin ?b) (Fin z))))) zs)
      = map Fin (map (discounted_payoff S K T r v) zs)"
    unfolding map_map comp_def by (rule map_cong) (simp_all only: path)
  moreover have "np_sum (map Fin (map (discounted_payoff S K T r v) zs))
      = Fin (sum_list (map (discounted_payoff S K T r v) zs))"
    using rng by (intro np_sum_Fin) (auto simp: MCS_in_range_def discounted_payoff_nonneg)
  moreover have "np_true_divide (Fin (sum_list (map (discounted_payoff S K T r v) zs))) I
      = Fin (sum_list (map (discounted_payoff S K T r v) zs) / real_of_int I)"
    using rng I by (simp add: MCS_in_range_def in_float_range_def)
  ultimately show ?thesis
    unfolding MCS_pv_def Let_def
    by (simp only: v2 h a' a s b rt D f_neg.simps sum.case)
qed



lemma example_MCS_in_range: "MCS_in_range 110 115 3 (1 / 20) (1 / 20) 1 [0]"
proof -
  define x :: real where "x = (1 / 20 - 0.5 * (1 / 20)\<^sup>2) * 3"
  define e :: real where "e = exp (- (1 / 20) * 3)"
  have x: "x = 117 / 800"
    by (simp add: x_def power2_eq_square)
  have e: "0.86070795 \<le> e" "e \<le> 0.86070799"
    using exp_minus_3_20_lower exp_minus_3_20_upper by (simp_all add: e_def)
  have s: "1.7320508 \<le> sqrt 3" "sqrt 3 \<le> 1.7320509"
    by (rule sqrt_3_lower, rule sqrt_3_upper)
  have "1 + x \<le> exp x"
    by (rule exp_ge_add_one_self)
  then have lo: "1.14 \<le> exp x"
    by (simp add: x)
  have "exp x \<le> 1 + x + x\<^sup>2"
    by (rule exp_bound) (simp_all add: x)
  then have hi: "exp x \<le> 1.17"
    by (simp add: x power2_eq_square)
  have tp: "terminal_price 110 3 (1 / 20) (1 / 20) 0 = 110 * exp x"
    by (simp add: terminal_price_def x_def)
  have dp: "discounted_payoff 110 115 3 (1 / 20) (1 / 20) 0 = (110 * exp x - 115) * e"
    using lo by (simp add: discounted_payoff_def tp e_def max_def)
  have dp_lo: "10 * 0.86 \<le> (110 * exp x - 115) * e"
    using lo e by (intro mult_mono) simp_all
  have dp_hi: "(110 * exp x - 115) * e \<le> 14 * 0.87"
    using lo hi e by (intro mult_mono) simp_all
  have "in_float_range ((1 / 20)\<^sup>2)"
    by (rule in_float_range_moderate) (simp_all add: power2_eq_square)
  moreover have "in_float_range (0.5 * (1 / 20)\<^sup>2)"
    by (rule in_float_range_moderate) (simp_all add: power2_eq_square)
  moreover have "in_float_range (1 / 20 - 0.5 * (1 / 20)\<^sup>2)"
    by (rule in_float_range_moderate) (simp_all add: power2_eq_square)
  moreover have "in_float_range ((1 / 20 - 0.5 * (1 / 20)\<^sup>2) * 3)"
    by (rule in_float_range_moderate) (simp_all add: power2_eq_square)
  moreover have "in_float_range (sqrt 3 * (1 / 20))"
    using s by (intro in_float_range_moderate) simp_all
  moreover have "in_float_range (- (1 / 20) * 3)"
    by (rule in_float_range_moderate) simp_all
  moreover have "in_float_range (exp (- (1 / 20) * 3))"
    using e unfolding e_def by (intro in_float_range_moderate) simp_all
  moreover have "in_float_range (sqrt 3 * (1 / 20) * 0)"
    by (simp add: in_float_range_0)
  moreover have "in_float_range ((1 / 20 - 0.5 * (1 / 20)\<^sup>2) * 3 + sqrt 3 * (1 / 20) * 0)"
    by (rule in_float_range_moderate) (simp_all add: power2_eq_square)
  moreover have "in_float_range (exp ((1 / 20 - 0.5 * (1 / 20)\<^sup>2) * 3 + sqrt 3 * (1 / 20) * 0))"
    using lo hi unfolding x_def by (intro in_float_range_moderate) simp_all
  moreover have "in_float_range (terminal_price 110 3 (1 / 20) (1 / 20) 0)"
    unfolding tp using lo hi by (intro in_float_range_moderate) simp_all
  moreover have "in_float_range (terminal_price 110 3 (1 / 20) (1 / 20) 0 - 115)"
    unfolding tp using lo hi by (intro in_float_range_moderate) simp_all
  moreover have "in_float_range (discounted_payoff 110 115 3 (1 / 20) (1 / 20) 0)"
    unfolding dp using dp_lo dp_hi by (intro in_float_range_moderate) simp_all
  moreover have "sum_list (map (discounted_payoff 110 115 3 (1 / 20) (1 / 20)) [0]) < float_max_bound"
    using dp_hi float_max_bound_large by (simp add: dp)
  moreover have "in_float_range (sum_list (map (discounted_payoff 110 115 3 (1 / 20) (1 / 20)) [0])
      / real_of_int 1)"
    using dp_lo dp_hi by (intro in_float_range_moderate) (simp_all add: dp)
  ultimately show ?thesis
    unfolding MCS_in_range_def by simp
qed



lemma float_bounds_order: "float_min_bound < float_max_bound"
  using float_min_bound_small(2) float_max_bound_large by simp

lemma float_max_bound_le: "float_max_bound \<le> 2 ^ 1024"
  by (simp add: float_max_bound_def)

lemma float_max_bound_million: "10 ^ 6 < float_max_bound"
proof -
  have "(2::real) ^ 970 \<le> 2 ^ 1023"
    by (rule power_increasing) simp_all
  moreover have "(2::real) ^ 1024 = 2 * 2 ^ 1023"
    by simp
  moreover have "(2::real) ^ 20 \<le> 2 ^ 1023"
    by (rule power_increasing) simp_all
  ultimately show ?thesis
    unfolding float_max_bound_def by simp
qed

lemma in_float_range_large:
  assumes "1 / 1000 \<le> \<bar>x\<bar>" "\<bar>x\<bar> \<le> 10 ^ 6"
  shows "in_float_range x"
  using assms float_min_bound_small(2) float_max_bound_million
  by (simp add: in_float_range_iff)

lemma exp_ge_power_2: "2 ^ n \<le> exp (real n)"
proof -
  have "(2::real) \<le> exp 1"
    using exp_ge_add_one_self [of 1] by simp
  then have "(2::real) ^ n \<le> exp 1 ^ n"
    by (intro power_mono) simp_all
  then show ?thesis
    using exp_of_nat_mult [of n "1 :: real"] by simp
qed

section \<open>The sign of the Monte Carlo estimate\<close>

lemma not_negative_fl: "0 \<le> x \<Longrightarrow> not_negative (fl x)"
  using float_max_bound_large by (simp add: fl_def)

lemma not_negative_signed_inf: "0 \<le> x \<Longrightarrow> not_negative (signed_inf x)"
  by (simp add: signed_inf_def)

lemma not_negative_f_add:
  "not_negative a \<Longrightarrow> not_negative b \<Longrightarrow> not_negative (f_add a b)"
  by (cases a; cases b) (simp_all add: not_negative_fl)

lemma not_negative_f_mul:
  "not_negative a \<Longrightarrow> not_negative b \<Longrightarrow> not_negative (f_mul a b)"
  by (cases a; cases b) (simp_all add: not_negative_fl not_negative_signed_inf)

lemma not_negative_np_exp: "not_negative (np_exp a)"
  by (cases a) (simp_all add: not_negative_fl)

lemma not_negative_np_maximum: "not_negative (np_maximum a 0)"
  by (cases a) simp_all

lemma not_negative_foldl:
  "not_negative acc \<Longrightarrow> \<forall>x\<in>set xs. not_negative x \<Longrightarrow> not_negative (foldl f_add acc xs)"
  by (induction xs arbitrary: acc) (simp_all add: not_negative_f_add)

lemma not_negative_np_true_divide:
  "not_negative a \<Longrightarrow> 0 < n \<Longrightarrow> not_negative (np_true_divide a n)"
  by (cases a) (simp_all add: not_negative_fl)

lemma py_pow_error: "py_pow (Fin x) 2 = Inl e \<Longrightarrow> e = OverflowError"
  by (simp split: if_splits)

lemma MCS_pv_not_negative:
  assumes "0 < I"
  shows "case MCS_pv S K T r v I zs of Inl e \<Rightarrow> e = OverflowError | Inr m \<Rightarrow> not_negative m"
proof (cases "py_pow (Fin v) 2")
  case (Inl e)
  then show ?thesis
    using py_pow_error [of v e] by (simp add: MCS_pv_def)
next
  case (Inr v2)
  have "not_negative (np_true_divide
      (np_sum (map (\<lambda>st. f_mul (np_maximum (f_sub st (Fin K)) 0) d) ST)) I)"
    if "not_negative d" for ST d
    unfolding np_sum_def using that assms
    by (intro not_negative_np_true_divide not_negative_foldl)
       (auto intro: not_negative_f_mul not_negative_np_maximum)
  then show ?thesis
    by (simp only: MCS_pv_def Let_def Inr sum.case not_negative_np_exp)
qed

text \<open>
  C8, as the code has it. For spot, strike, maturity and volatility all positive, every
  positive number of paths and every list of that many draws, the Monte Carlo estimator
  never returns a negative number: it raises \<open>OverflowError\<close> (from \<open>vola ** 2\<close>) or
  returns a number \<open>\<ge> 0\<close>, plus infinity or \<open>nan\<close>. Nothing is stated here about the
  sign of the closed form: its formula is not negative over the real numbers
  (\<open>closed_form_nonneg\<close>), but the sign of a float result next to zero is decided by
  rounding, which is not modelled.
\<close>

theorem C8_estimate_not_negative:
  assumes "0 < spot" "0 < strike" "0 < maturity" "0 < volatility"
    and "0 < pathCount" and "length z = nat pathCount"
  shows "case MCS_pv spot strike maturity rate volatility pathCount z of
            Inl e \<Rightarrow> e = OverflowError
          | Inr m \<Rightarrow> not_negative m"
  using assms(5) by (rule MCS_pv_not_negative)

theorem C8_estimate_not_negative_witness:
  "(0::real) < 110 \<and> (0::real) < 115 \<and> (0::real) < 3 \<and> (0::real) < 1 / 20
   \<and> (0::int) < 1 \<and> length [0 :: real] = nat 1
   \<and> (\<exists>m. MCS_pv 110 115 3 (1 / 20) (1 / 20) 1 [0] = Inr (Fin m) \<and> 0 \<le> m)"
  using C8_estimate_not_negative [of 110 115 3 "1 / 20" 1 "[0]" "1 / 20"]
    MCS_pv_in_range [OF _ _ example_MCS_in_range]
  by simp

text \<open>
  With a rate of \<open>1000\<close> the terminal price overflows to infinity and the discount factor
  underflows to zero: their product, and the estimate, is \<open>nan\<close>.
\<close>

theorem C8_nan_counterexample:
  "MCS_pv 110 115 3 1000 (1 / 20) 1 [0] = Inr NaN"
proof -
  define a :: real where "a = (1000 - 0.5 * (1 / 20)\<^sup>2) * 3"
  have a: "a = 2999.99625"
    by (simp add: a_def power2_eq_square)
  have s: "1.7320508 \<le> sqrt 3" "sqrt 3 \<le> 1.7320509"
    by (rule sqrt_3_lower, rule sqrt_3_upper)
  have v2: "py_pow (Fin (1 / 20)) 2 = Inr (Fin ((1 / 20)\<^sup>2))"
    by (intro py_pow_Fin in_float_range_moderate) (simp_all add: power2_eq_square)
  have h: "f_mul (Fin 0.5) (Fin ((1 / 20)\<^sup>2)) = Fin (0.5 * (1 / 20)\<^sup>2)"
    by (intro f_mul_Fin in_float_range_moderate) (simp_all add: power2_eq_square)
  have a': "f_sub (Fin 1000) (Fin (0.5 * (1 / 20)\<^sup>2)) = Fin (1000 - 0.5 * (1 / 20)\<^sup>2)"
    by (intro f_sub_Fin in_float_range_moderate) (simp_all add: power2_eq_square)
  have am: "f_mul (Fin (1000 - 0.5 * (1 / 20)\<^sup>2)) (Fin 3) = Fin a"
    unfolding a_def by (intro f_mul_Fin in_float_range_large) (simp_all add: power2_eq_square)
  have sq: "np_sqrt (Fin 3) = Fin (sqrt 3)"
    by simp
  have b: "f_mul (Fin (sqrt 3)) (Fin (1 / 20)) = Fin (sqrt 3 * (1 / 20))"
    using s by (intro f_mul_Fin in_float_range_moderate) simp_all
  have bz: "f_mul (Fin (sqrt 3 * (1 / 20))) (Fin 0) = Fin 0"
    using in_float_range_0 by (simp add: in_float_range_def)
  have arg: "f_add (Fin a) (Fin 0) = Fin a"
    using in_float_range_large [of a] by (simp add: a in_float_range_def)
  have "(2::real) ^ 1024 \<le> exp (real 1024)"
    by (rule exp_ge_power_2)
  also have "\<dots> \<le> exp a"
    by (simp add: a)
  finally have "float_max_bound \<le> exp a"
    using float_max_bound_le by linarith
  then have ex: "np_exp (Fin a) = PosInf"
    by (simp add: fl_def)
  have st: "f_mul (Fin 110) PosInf = PosInf"
    by (simp add: signed_inf_def)
  have df: "f_sub PosInf (Fin 115) = PosInf"
    by (simp add: f_sub_def)
  have mx: "np_maximum PosInf 0 = PosInf"
    by simp
  have rt: "f_mul (f_neg (Fin 1000)) (Fin 3) = Fin (- 3000)"
    using in_float_range_large [of "- 3000"] by (simp add: in_float_range_def)
  have "(2::real) ^ 3000 \<le> exp (real 3000)"
    by (rule exp_ge_power_2)
  then have "inverse (exp (3000 :: real)) \<le> inverse (2 ^ 3000)"
    by (intro le_imp_inverse_le) simp_all
  moreover have "inverse ((2::real) ^ 3000) \<le> inverse (2 ^ 1075)"
    by (intro le_imp_inverse_le power_increasing) simp_all
  ultimately have small: "exp (- 3000 :: real) \<le> float_min_bound"
    by (simp add: exp_minus float_min_bound_def inverse_eq_divide)
  have pos: "0 < exp (- 3000 :: real)"
    by simp
  have disc: "np_exp (Fin (- 3000)) = Fin 0"
    using small pos float_max_bound_large float_min_bound_small
    by (simp add: fl_def del: exp_gt_zero)
  have pd: "f_mul PosInf (Fin 0) = NaN"
    by (simp add: signed_inf_def)
  have sm: "np_sum [NaN] = NaN"
    by (simp add: np_sum_def)
  have dv: "np_true_divide NaN 1 = NaN"
    by simp
  show ?thesis
    unfolding MCS_pv_def Let_def
    by (simp only: v2 h a' am sq b bz arg ex st df mx rt disc pd sm dv sum.case list.map)
qed

section \<open>Two runs of the cell\<close>






section \<open>The cell with no path\<close>

lemma MCS_pv_no_path:
  "MCS_pv S_0 K T r vola 0 [] = (if float_max_bound \<le> vola\<^sup>2 then Inl OverflowError else Inr NaN)"
  by (simp add: MCS_pv_def np_sum_def signed_inf_def)

lemma MCS_pv_overflow:
  "float_max_bound \<le> vola\<^sup>2 \<Longrightarrow> MCS_pv S_0 K T r vola I zs = Inl OverflowError"
  by (simp add: MCS_pv_def)

text \<open>
  C9, as the code has it. The notebook fixes \<open>I = 100000\<close>; with the number of paths read
  as an input of at most that size, the cell raises \<open>ValueError\<close> (from \<open>standard_normal\<close>,
  before anything is drawn) when it is negative; otherwise it raises \<open>OverflowError\<close> when
  \<open>vola ** 2\<close> overflows; otherwise, with no path at all, it raises nothing and returns
  \<open>nan\<close> (numpy divides \<open>0.0\<close> by \<open>0\<close> with a warning only); with one path or more it
  returns the estimate.
\<close>

theorem C9_path_count_cases:
  assumes "pathCount \<le> 100000"
  shows "MCS_cell spot strike maturity rate volatility pathCount g =
     (if pathCount < 0 then (Inl ValueError, g)
      else if float_max_bound \<le> volatility\<^sup>2
        then (Inl OverflowError, (\<lambda>k. g (k + nat pathCount)))
      else if pathCount = 0 then (Inr NaN, g)
      else (MCS_pv spot strike maturity rate volatility pathCount (map g [0..<nat pathCount]),
            (\<lambda>k. g (k + nat pathCount))))"
  by (simp add: MCS_cell_cases MCS_pv_no_path MCS_pv_overflow)

theorem C9_path_count_cases_witness:
  "(- 1 :: int) \<le> 100000
   \<and> MCS_cell 110 115 3 (1 / 20) (1 / 20) (- 1) (\<lambda>k. 0) = (Inl ValueError, (\<lambda>k. 0))"
  using C9_path_count_cases [of "- 1" 110 115 3 "1 / 20" "1 / 20" "\<lambda>k. 0"] by simp

text \<open>With the example's parameters and no path the cell returns \<open>nan\<close> and raises nothing.\<close>

theorem C9_zero_paths_counterexample:
  "fst (MCS_cell 110 115 3 (1 / 20) (1 / 20) 0 (\<lambda>k. 0)) = Inr NaN"
proof -
  have "\<not> float_max_bound \<le> ((1 / 20 :: real))\<^sup>2"
    using float_max_bound_large by (simp add: power2_eq_square)
  then show ?thesis
    by (simp add: MCS_cell_cases MCS_pv_no_path)
qed

section \<open>What the code rejects\<close>

lemma fl_eq_zero_iff: "fl x = Fin 0 \<longleftrightarrow> \<bar>x\<bar> \<le> float_min_bound"
  using float_min_bound_small(1) float_max_bound_large float_bounds_order
  by (auto simp: fl_def)

lemma py_truediv_fl:
  "py_truediv a (fl x)
     = (if \<bar>x\<bar> \<le> float_min_bound then Inl ZeroDivisionError else Inr (f_div a (fl x)))"
  by (simp add: py_truediv_def fl_eq_zero_iff)

lemma math_log_fl:
  "math_log (fl x) = (if x \<le> float_min_bound then Inl ValueError
                      else if float_max_bound \<le> x then Inr PosInf else Inr (Fin (ln x)))"
  using float_min_bound_small(1) float_max_bound_large float_bounds_order
  by (auto simp: fl_def)

lemma raised_math_exp_fl:
  "raised (math_exp (fl y))
     = (if \<bar>y\<bar> < float_max_bound \<and> float_max_bound \<le> exp y then Some OverflowError else None)"
proof -
  have "exp y < float_max_bound" if "\<bar>y\<bar> \<le> float_min_bound"
  proof -
    have "y \<le> 1"
      using that float_min_bound_small(2) float_min_bound_small(1) by simp
    then have "exp y \<le> exp 1"
      by simp
    also have "\<dots> \<le> 3"
      using exp_le by simp
    finally show ?thesis
      using float_max_bound_large by simp
  qed
  moreover have "\<not> float_max_bound \<le> exp (0::real)"
    using float_max_bound_large by simp
  ultimately show ?thesis
    using float_min_bound_small(1) float_max_bound_large float_bounds_order
    by (auto simp: fl_def raised_def)
qed

lemma raised_BSM_call_value:
  "raised (BSM_call_value S_0 K T r vola) =
     (if K = 0 then Some ZeroDivisionError
      else if S_0 / K \<le> float_min_bound then Some ValueError
      else if float_max_bound \<le> vola\<^sup>2 then Some OverflowError
      else if T < 0 then Some ValueError
      else if \<bar>vola * sqrt T\<bar> \<le> float_min_bound then Some ZeroDivisionError
      else if \<bar>- r * T\<bar> < float_max_bound \<and> float_max_bound \<le> exp (- r * T)
        then Some OverflowError
      else None)"
proof -
  have push: "raised (case x of Inl e \<Rightarrow> Inl e | Inr v \<Rightarrow> f v)
      = (case x of Inl e \<Rightarrow> Some e | Inr v \<Rightarrow> raised (f v))"
    for x :: "pyerr + pyfloat" and f :: "pyfloat \<Rightarrow> pyerr + pyfloat"
    by (cases x) (simp_all add: raised_def)
  have unpush: "(case m of Inl e \<Rightarrow> Some e | Inr v \<Rightarrow> None) = raised m"
    for m :: "pyerr + pyfloat"
    by (simp add: raised_def)
  have stop: "raised (Inr v) = None" "raised (Inl e) = Some e" for v :: pyfloat and e
    by (simp_all add: raised_def)
  show ?thesis
    unfolding BSM_call_value_def py_float_def Let_def
    by (simp add: push unpush stop py_truediv_def [of _ "Fin K"] py_truediv_fl math_log_fl
          raised_math_exp_fl cong: sum.case_cong)
qed

lemma raised_MCS_cell:
  "raised (fst (MCS_cell S_0 K T r vola I g)) =
     (if I < 0 then Some ValueError
      else if float_max_bound \<le> vola\<^sup>2 then Some OverflowError
      else None)"
  by (simp add: MCS_cell_cases MCS_pv_def raised_def Let_def)

lemma float_bounds_wide:
  "float_min_bound < 1 / 10 ^ 200" "10 ^ 200 < float_max_bound" "3 ^ 600 < float_max_bound"
  by (simp_all add: float_min_bound_def float_max_bound_def)

lemma moderate_quotient:
  assumes "moderate S" "moderate K" "K \<noteq> 0"
  shows "S / K \<le> float_min_bound \<longleftrightarrow> S / K \<le> 0"
proof
  assume "S / K \<le> 0"
  then show "S / K \<le> float_min_bound"
    using float_min_bound_small(1) by simp
next
  assume le: "S / K \<le> float_min_bound"
  show "S / K \<le> 0"
  proof (rule ccontr)
    assume "\<not> S / K \<le> 0"
    then have pos: "0 < S / K"
      by simp
    then have "S \<noteq> 0"
      by auto
    then have S: "1 / 10 ^ 100 \<le> \<bar>S\<bar>"
      using assms(1) by (simp add: moderate_def)
    have K: "\<bar>K\<bar> \<le> 10 ^ 100" "0 < \<bar>K\<bar>"
      using assms(2,3) by (auto simp: moderate_def)
    have "1 / 10 ^ 100 / 10 ^ 100 \<le> \<bar>S\<bar> / \<bar>K\<bar>"
      using S K by (intro frac_le) simp_all
    moreover have "\<bar>S\<bar> / \<bar>K\<bar> = S / K"
      using pos by (simp only: abs_divide [symmetric] abs_of_pos)
    moreover have "(1::real) / 10 ^ 100 / 10 ^ 100 = 1 / 10 ^ 200"
      by simp
    ultimately have "1 / 10 ^ 200 \<le> S / K"
      by (simp only:)
    then have "1 / 10 ^ 200 \<le> float_min_bound"
      using le by (rule order_trans)
    from leD [OF this] float_bounds_wide(1) show False
      by (rule notE)
  qed
qed

lemma moderate_square:
  assumes "moderate v"
  shows "\<not> float_max_bound \<le> v\<^sup>2"
proof -
  have "\<bar>v\<bar> \<le> 10 ^ 100"
    using assms by (auto simp: moderate_def)
  then have "\<bar>v\<bar> ^ 2 \<le> (10 ^ 100) ^ 2"
    by (intro power_mono) simp_all
  then have "v\<^sup>2 \<le> 10 ^ 200"
    by simp
  then show ?thesis
    using float_bounds_wide(2) by simp
qed

lemma moderate_product:
  assumes "moderate v" "moderate T" "0 \<le> T"
  shows "\<bar>v * sqrt T\<bar> \<le> float_min_bound \<longleftrightarrow> v = 0 \<or> T = 0"
proof
  assume "v = 0 \<or> T = 0"
  then show "\<bar>v * sqrt T\<bar> \<le> float_min_bound"
    using float_min_bound_small(1) by auto
next
  assume le: "\<bar>v * sqrt T\<bar> \<le> float_min_bound"
  show "v = 0 \<or> T = 0"
  proof (rule ccontr)
    assume "\<not> (v = 0 \<or> T = 0)"
    then have nz: "v \<noteq> 0" "T \<noteq> 0"
      by simp_all
    have v: "1 / 10 ^ 100 \<le> \<bar>v\<bar>"
      using assms(1) nz by (simp add: moderate_def)
    have "1 / 10 ^ 100 \<le> T"
      using assms(2,3) nz by (simp add: moderate_def)
    then have "(1 / 10 ^ 50)\<^sup>2 \<le> T"
      by (simp add: power_divide)
    then have T: "1 / 10 ^ 50 \<le> sqrt T"
      by (rule real_le_rsqrt)
    have "1 / 10 ^ 100 * (1 / 10 ^ 50) \<le> \<bar>v\<bar> * sqrt T"
      using v T by (intro mult_mono) simp_all
    moreover have "(1::real) / 10 ^ 200 \<le> 1 / 10 ^ 100 * (1 / 10 ^ 50)"
      by simp
    ultimately have "1 / 10 ^ 200 \<le> \<bar>v * sqrt T\<bar>"
      using assms(3) by (simp add: abs_mult)
    then show False
      using le float_bounds_wide(1) by simp
  qed
qed

lemma moderate_discount:
  assumes "\<bar>r * T\<bar> \<le> 600"
  shows "\<not> float_max_bound \<le> exp (- r * T)"
proof -
  have "- r * T \<le> real 600"
    using assms by simp
  then have "exp (- r * T) \<le> exp (real 600)"
    by (simp only: exp_le_cancel_iff)
  also have "\<dots> = exp 1 ^ 600"
    using exp_of_nat_mult [of 600 "1 :: real"] by simp
  also have "\<dots> \<le> 3 ^ 600"
    using exp_le by (intro power_mono) simp_all
  finally show ?thesis
    using float_bounds_wide(3) by simp
qed

lemma raised_BSM_moderate:
  assumes "moderate S_0" "moderate K" "moderate T" "moderate vola" "\<bar>r * T\<bar> \<le> 600"
  shows "raised (BSM_call_value S_0 K T r vola) =
     (if K = 0 then Some ZeroDivisionError
      else if S_0 / K \<le> 0 then Some ValueError
      else if T < 0 then Some ValueError
      else if vola = 0 \<or> T = 0 then Some ZeroDivisionError
      else None)"
proof (cases "K = 0")
  case True
  then show ?thesis
    by (simp add: raised_BSM_call_value)
next
  case K: False
  show ?thesis
  proof (cases "T < 0")
    case True
    then show ?thesis
      using K moderate_quotient [OF assms(1,2) K] moderate_square [OF assms(4)]
      by (simp add: raised_BSM_call_value)
  next
    case False
    then have "0 \<le> T"
      by simp
    then show ?thesis
      using K moderate_quotient [OF assms(1,2) K] moderate_square [OF assms(4)]
        moderate_product [OF assms(4,3)] moderate_discount [OF assms(5)]
      by (simp add: raised_BSM_call_value)
  qed
qed

lemma raised_MCS_moderate:
  assumes "moderate vola"
  shows "raised (fst (MCS_cell S_0 K T r vola I g)) = (if I < 0 then Some ValueError else None)"
  using moderate_square [OF assms] by (simp add: raised_MCS_cell)

lemma raised_None: "raised x = None \<Longrightarrow> \<exists>v. x = Inr v"
  by (cases x) (simp_all add: raised_def)

text \<open>
  C3, as the code has it. Neither notebook validates a parameter and there is no
  \<open>InvalidParameterError\<close>: the pricers raise where their arithmetic does. For
  parameters of moderate size (spot, strike, maturity and volatility each zero or of
  absolute value between \<open>1e-100\<close> and \<open>1e100\<close>, and \<open>\<bar>rate * maturity\<bar> \<le> 600\<close>) the closed
  form, as the function and as the method of the class, raises \<open>ZeroDivisionError\<close> for a
  zero strike, else \<open>ValueError\<close> (\<open>math.log\<close>) when spot / strike is not positive, else
  \<open>ValueError\<close> (\<open>math.sqrt\<close>) for a negative maturity, else \<open>ZeroDivisionError\<close> for a
  zero volatility or maturity, and raises nothing otherwise: a negative volatility, or
  spot and strike both negative, are priced. The Monte Carlo cell, for a number of paths
  up to the notebook's \<open>100000\<close>, raises nothing at all for such parameters unless the number
  of paths is negative. Outside the moderate sizes the same operations also raise when a
  result overflows or is flushed to zero (\<open>raised_BSM_call_value\<close>, \<open>raised_MCS_cell\<close>).
\<close>

theorem C3_errors_of_the_pricers:
  assumes "moderate spot" "moderate strike" "moderate maturity" "moderate volatility"
    and "\<bar>rate * maturity\<bar> \<le> 600" and "pathCount \<le> 100000"
  shows "raised (BSM_call_value spot strike maturity rate volatility) =
           (if strike = 0 then Some ZeroDivisionError
            else if spot / strike \<le> 0 then Some ValueError
            else if maturity < 0 then Some ValueError
            else if volatility = 0 \<or> maturity = 0 then Some ZeroDivisionError
            else None)
       \<and> raised (Call_Option (Option_init spot strike maturity rate volatility)) =
           (if strike = 0 then Some ZeroDivisionError
            else if spot / strike \<le> 0 then Some ValueError
            else if maturity < 0 then Some ValueError
            else if volatility = 0 \<or> maturity = 0 then Some ZeroDivisionError
            else None)
       \<and> raised (fst (MCS_cell spot strike maturity rate volatility pathCount g)) =
           (if pathCount < 0 then Some ValueError else None)"
  using raised_BSM_moderate [OF assms(1-5)] raised_MCS_moderate [OF assms(4)]
  by (simp only: Call_Option_eq_BSM simp_thms)

theorem C3_errors_of_the_pricers_witness:
  "moderate 110 \<and> moderate 115 \<and> moderate 3 \<and> moderate 0 \<and> \<bar>1 / 20 * 3\<bar> \<le> (600::real)
   \<and> (1::int) \<le> 100000
   \<and> raised (BSM_call_value 110 115 3 (1 / 20) 0) = Some ZeroDivisionError
   \<and> raised (Call_Option (Option_init 110 115 3 (1 / 20) 0)) = Some ZeroDivisionError
   \<and> raised (fst (MCS_cell 110 115 3 (1 / 20) 0 1 (\<lambda>k. 0))) = None"
  using C3_errors_of_the_pricers [of 110 115 3 0 "1 / 20" 1 "\<lambda>k. 0"]
  by (simp add: moderate_def)

text \<open>
  A negative volatility is priced by the closed form, and a zero spot by the Monte Carlo
  cell: neither raises.
\<close>

theorem C3_no_validation_counterexample:
  "(\<exists>v. BSM_call_value 110 115 3 (1 / 20) (- (1 / 20)) = Inr v)
   \<and> (\<exists>v. Call_Option (Option_init 110 115 3 (1 / 20) (- (1 / 20))) = Inr v)
   \<and> (\<exists>v. fst (MCS_cell 0 115 3 (1 / 20) (1 / 20) 1 (\<lambda>k. 0)) = Inr v)"
proof -
  have m: "moderate 110" "moderate 115" "moderate 3" "moderate (1 / 20)" "moderate (- (1 / 20))"
    by (simp_all add: moderate_def)
  have "raised (BSM_call_value 110 115 3 (1 / 20) (- (1 / 20))) = None"
    using raised_BSM_moderate [OF m(1,2,3,5), of "1 / 20"] by simp
  moreover have "raised (fst (MCS_cell 0 115 3 (1 / 20) (1 / 20) 1 (\<lambda>k. 0))) = None"
    using raised_MCS_moderate [OF m(4), of 0 115 3 "1 / 20" 1 "\<lambda>k. 0"] by simp
  ultimately show ?thesis
    by (simp only: Call_Option_eq_BSM raised_None simp_thms)
qed

section \<open>The order of two spots\<close>





end
